theory Spec2Isabelle
  imports Complex_Main "HOL-Library.AList" "HOL-Library.Multiset"
begin

section \<open>Data model of \<open>server_benchmark.py\<close>\<close>

text \<open>
  A tensor is modelled by its flat list of entries, over the reals (rounding of the
  floating-point operations is not modelled); its shape is the length of the list.
  A parameter map (\<open>OrderedDict\<close>) is an association list in insertion order.
\<close>

type_synonym tensor = "real list"
type_synonym pmap = "(string \<times> tensor) list"

text \<open>The exceptions the modelled code can raise.\<close>

datatype error =
    KeyError string \<comment> \<open>a lookup or \<open>pop\<close> in \<open>self.user_ids\<close> with an absent id\<close>
  | RuntimeError \<comment> \<open>torch: in-place addition of tensors of different shapes\<close>
  | AttributeError \<comment> \<open>reading \<open>self.num_clients\<close> before any assignment to it\<close>

text \<open>\<open>class Constants\<close>: the two status values.\<close>

datatype status = STATUS_ALIVE | STATUS_DEAD

text \<open>An entry of \<open>self.user_ids\<close>.\<close>

record session =
  user_num :: nat
  status :: status
  last_active :: real

text \<open>
  The fields of \<open>CommunicationServicer\<close>. \<open>num_clients\<close> is not assigned in
  \<open>__init__\<close>: \<open>None\<close> stands for the absent attribute. \<open>model\<close> is the
  value of \<open>self.model.state_dict()\<close>, the parameters of the network built by
  \<open>ModelUtils\<close> (not part of this file, hence a parameter of the initial state).
\<close>

record server =
  local_averages :: "pmap list"
  num_clients :: "nat option"
  target_clients :: nat
  state_dict :: "pmap option"
  model :: pmap
  user_ids :: "(string \<times> session) list"

definition init_server :: "pmap \<Rightarrow> server" where
  "init_server m =
     \<lparr> local_averages = [], num_clients = None, target_clients = 2,
       state_dict = None, model = m, user_ids = [] \<rparr>"

section \<open>\<open>_compute_global_average\<close>\<close>

text \<open>Python's \<open>sub in s\<close> on strings.\<close>

fun str_contains :: "string \<Rightarrow> string \<Rightarrow> bool" where
  "str_contains sub [] = (sub = [])"
| "str_contains sub (c # cs) = (take (length sub) (c # cs) = sub \<or> str_contains sub cs)"

text \<open>
  \<open>avg_state_dict[name] += param\<close>: elementwise, in place on the accumulator; torch
  raises when the shapes differ (broadcasting of a smaller operand is not modelled).
\<close>

definition tensor_iadd :: "tensor \<Rightarrow> tensor \<Rightarrow> error + tensor" where
  "tensor_iadd acc param =
     (if length acc = length param then Inr (map2 (+) acc param) else Inl RuntimeError)"

text \<open>The inner loop, over the items of one client's map.\<close>

fun accumulate_items :: "pmap \<Rightarrow> pmap \<Rightarrow> error + pmap" where
  "accumulate_items avg [] = Inr avg"
| "accumulate_items avg ((name, param) # rest) =
     (if str_contains ''bn'' name then accumulate_items avg rest
      else case map_of avg name of
             None \<Rightarrow> accumulate_items (AList.update name param avg) rest
           | Some acc \<Rightarrow>
               (case tensor_iadd acc param of
                  Inl e \<Rightarrow> Inl e
                | Inr acc' \<Rightarrow> accumulate_items (AList.update name acc' avg) rest))"

text \<open>The outer loop, over \<open>self.local_averages\<close>.\<close>

fun accumulate_maps :: "pmap \<Rightarrow> pmap list \<Rightarrow> error + pmap" where
  "accumulate_maps avg [] = Inr avg"
| "accumulate_maps avg (sd # sds) =
     (case accumulate_items avg sd of
        Inl e \<Rightarrow> Inl e
      | Inr avg' \<Rightarrow> accumulate_maps avg' sds)"

text \<open>The second loop: every accumulated tensor divided by \<open>float(len(self.local_averages))\<close>.\<close>

definition divide_all :: "nat \<Rightarrow> pmap \<Rightarrow> pmap" where
  "divide_all n avg = map (\<lambda>(name, param). (name, map (\<lambda>x. x / real n) param)) avg"

definition compute_global_average :: "server \<Rightarrow> error + server" where
  "compute_global_average s =
     (if local_averages s = [] then Inr s
      else case accumulate_maps [] (local_averages s) of
             Inl e \<Rightarrow> Inl e
           | Inr avg \<Rightarrow>
               Inr (s\<lparr>state_dict := Some (divide_all (length (local_averages s)) avg)\<rparr>))"

section \<open>The identity registry: \<open>_generate_ID\<close>, \<open>GetID\<close>, \<open>GetSize\<close>, \<open>SendBye\<close>\<close>

text \<open>
  \<open>hash\<close> of a non-negative Python integer (CPython, 64 bit) and \<open>hex\<close> of a
  non-negative integer.
\<close>

definition py_hash :: "nat \<Rightarrow> nat" where
  "py_hash n = n mod (2 ^ 61 - 1)"

definition hex_digit :: "nat \<Rightarrow> char" where
  "hex_digit d = ''0123456789abcdef'' ! (d mod 16)"

fun hex_digits :: "nat \<Rightarrow> string" where
  "hex_digits n = (if n < 16 then [hex_digit n] else hex_digits (n div 16) @ [hex_digit (n mod 16)])"

definition hex :: "nat \<Rightarrow> string" where
  "hex n = ''0x'' @ hex_digits n"

text \<open>
  The random generator is a stream \<open>draws\<close> of raw outputs and a position in it;
  \<open>np.random.randint(lo, hi)\<close> consumes one output and returns a value in
  \<open>[lo, hi)\<close>. \<open>draw_id draws pos\<close> is \<open>hex(hash(np.random.randint(0, 2**31 - 1)))\<close>
  at position \<open>pos\<close>.
\<close>

definition randint :: "(nat \<Rightarrow> nat) \<Rightarrow> nat \<Rightarrow> nat \<Rightarrow> nat \<Rightarrow> nat" where
  "randint draws pos lo hi = lo + draws pos mod (hi - lo)"

definition draw_id :: "(nat \<Rightarrow> nat) \<Rightarrow> nat \<Rightarrow> string" where
  "draw_id draws pos = hex (py_hash (randint draws pos 0 (2 ^ 31 - 1)))"

text \<open>
  The \<open>while random_id in self.user_ids\<close> loop. It runs for as long as the generator
  produces registered ids, hence the option type: \<open>None\<close> is a call that never returns.
\<close>

partial_function (option) generate_ID_loop ::
  "(nat \<Rightarrow> nat) \<Rightarrow> string list \<Rightarrow> string \<Rightarrow> nat \<Rightarrow> (string \<times> nat) option" where
  "generate_ID_loop draws ids random_id pos =
     (if random_id \<in> set ids then generate_ID_loop draws ids (draw_id draws pos) (Suc pos)
      else Some (random_id, pos))"

definition generate_ID :: "(nat \<Rightarrow> nat) \<Rightarrow> server \<Rightarrow> nat \<Rightarrow> (string \<times> nat) option" where
  "generate_ID draws s pos =
     generate_ID_loop draws (map fst (user_ids s)) (draw_id draws pos) (Suc pos)"

text \<open>
  \<open>GetID\<close>, the whole body under the lock. \<open>now\<close> is the value of \<open>time.time()\<close>;
  the result is the reply \<open>(id, num)\<close>, the new state and the generator's new position.
\<close>

definition GetID ::
  "(nat \<Rightarrow> nat) \<Rightarrow> real \<Rightarrow> server \<times> nat \<Rightarrow> ((string \<times> nat) \<times> server \<times> nat) option" where
  "GetID draws now = (\<lambda>(s, pos).
     case generate_ID draws s pos of
       None \<Rightarrow> None
     | Some (random_id, pos') \<Rightarrow>
         (let un = length (user_ids s) + 1;
              info = \<lparr> user_num = un, status = STATUS_ALIVE, last_active = now \<rparr>
          in Some ((random_id, un), s\<lparr>user_ids := AList.update random_id info (user_ids s)\<rparr>, pos')))"

text \<open>
  \<open>GetSize\<close>. The sweep reads \<open>time.time()\<close> once per session: \<open>clock k\<close> is the
  reading taken for the session at position \<open>k\<close> of the dictionary.
\<close>

fun sweep :: "(nat \<Rightarrow> real) \<Rightarrow> nat \<Rightarrow> (string \<times> session) list \<Rightarrow> (string \<times> session) list" where
  "sweep clock k [] = []"
| "sweep clock k ((uid, info) # rest) =
     (uid, if clock k - last_active info > 300 then info\<lparr>status := STATUS_DEAD\<rparr> else info)
       # sweep clock (Suc k) rest"

text \<open>The list comprehension: the ids of the sessions whose status is \<open>STATUS_ALIVE\<close>.\<close>

definition alive_ids :: "server \<Rightarrow> string list" where
  "alive_ids s = map fst (filter (\<lambda>(uid, info). status info = STATUS_ALIVE) (user_ids s))"

definition GetSize :: "(nat \<Rightarrow> real) \<Rightarrow> server \<Rightarrow> nat \<times> server" where
  "GetSize clock s =
     (let s' = s\<lparr>user_ids := sweep clock 0 (user_ids s)\<rparr> in (length (alive_ids s'), s'))"

text \<open>\<open>SendBye\<close>: \<open>self.user_ids.pop(request.id)\<close> raises on an absent id.\<close>

definition SendBye :: "string \<Rightarrow> server \<Rightarrow> error + server" where
  "SendBye uid s =
     (case map_of (user_ids s) uid of
        None \<Rightarrow> Inl (KeyError uid)
      | Some info \<Rightarrow> Inr (s\<lparr>user_ids := AList.delete uid (user_ids s)\<rparr>))"

section \<open>\<open>GetModel\<close>\<close>

text \<open>\<open>not self.state_dict\<close> holds for \<open>None\<close> and for an empty dictionary.\<close>

definition GetModel :: "server \<Rightarrow> pmap" where
  "GetModel s =
     (case state_dict s of
        None \<Rightarrow> model s
      | Some sd \<Rightarrow> if sd = [] then model s else sd)"

section \<open>\<open>SendMessage\<close>\<close>

text \<open>
  A call of \<open>SendMessage\<close> runs on a thread of its own and is a sequence of atomic
  sections: the assignment to \<open>last_active\<close> (line 112), the first \<open>with self.lock\<close>
  block, each test of the barrier's loop condition under \<open>self.condition\<close> (whose lock
  is \<open>self.lock\<close>), and the last \<open>with self.lock\<close> block. A thread is described by
  its request and the section it executes next.
\<close>

datatype pc =
    PC_heartbeat \<comment> \<open>before line 112\<close>
  | PC_append \<comment> \<open>before the first \<open>with self.lock\<close> block\<close>
  | PC_barrier \<comment> \<open>before \<open>with self.condition\<close>\<close>
  | PC_waiting \<comment> \<open>suspended in \<open>self.condition.wait()\<close>\<close>
  | PC_notified \<comment> \<open>woken by \<open>notify_all\<close>, about to test the loop condition again\<close>
  | PC_aggregate \<comment> \<open>before the last \<open>with self.lock\<close> block\<close>
  | PC_returned
  | PC_raised error

text \<open>
  Modelled from the spec: \<open>deserialize_model\<close> and \<open>serialize_model\<close> (module
  \<open>grpc_utils\<close>, not part of this file) are the codec, which round-trips a parameter
  map losslessly. A buffer is therefore represented by the map it encodes:
  \<open>req_model\<close> is \<open>deserialize_model(request.model.buffer)\<close>, and \<open>GetModel\<close> returns
  the map that it serialises.
\<close>

record request =
  req_id :: string
  req_model :: pmap

record thread =
  req :: request
  pc :: pc

text \<open>
  \<open>agg_calls\<close> is a history variable: the number of calls of
  \<open>_compute_global_average\<close> made so far.
\<close>

record system =
  srv :: server
  threads :: "thread list"
  agg_calls :: nat

text \<open>Line 112: \<open>self.user_ids[user_id]["last_active"] = time.time()\<close>.\<close>

definition heartbeat :: "string \<Rightarrow> real \<Rightarrow> server \<Rightarrow> error + server" where
  "heartbeat uid now s =
     (case map_of (user_ids s) uid of
        None \<Rightarrow> Inl (KeyError uid)
      | Some info \<Rightarrow>
          Inr (s\<lparr>user_ids := AList.update uid (info\<lparr>last_active := now\<rparr>) (user_ids s)\<rparr>))"

text \<open>Lines 116 to 123; the second component tells whether \<open>notify_all\<close> is called.\<close>

definition append_section :: "pmap \<Rightarrow> server \<Rightarrow> server \<times> bool" where
  "append_section m s =
     (let la = local_averages s @ [m]; n = length la
      in (s\<lparr>local_averages := la, num_clients := Some n\<rparr>, n \<ge> target_clients s))"

text \<open>The loop condition \<open>self.num_clients < self.target_clients\<close>.\<close>

definition barrier_test :: "server \<Rightarrow> error + bool" where
  "barrier_test s =
     (case num_clients s of
        None \<Rightarrow> Inl AttributeError
      | Some n \<Rightarrow> Inr (n < target_clients s))"

text \<open>Lines 132 to 134.\<close>

definition final_section :: "server \<Rightarrow> error + server" where
  "final_section s =
     (case compute_global_average s of
        Inl e \<Rightarrow> Inl e
      | Inr s' \<Rightarrow> Inr (s'\<lparr>local_averages := []\<rparr>))"

definition set_pc :: "nat \<Rightarrow> pc \<Rightarrow> system \<Rightarrow> system" where
  "set_pc t p sys = sys\<lparr>threads := (threads sys)[t := (threads sys ! t)\<lparr>pc := p\<rparr>]\<rparr>"

definition notify_all :: "thread list \<Rightarrow> thread list" where
  "notify_all ths = map (\<lambda>th. if pc th = PC_waiting then th\<lparr>pc := PC_notified\<rparr> else th) ths"

definition test_barrier :: "nat \<Rightarrow> system \<Rightarrow> system" where
  "test_barrier t sys =
     (case barrier_test (srv sys) of
        Inl e \<Rightarrow> set_pc t (PC_raised e) sys
      | Inr b \<Rightarrow> if b then set_pc t PC_waiting sys else set_pc t PC_aggregate sys)"

text \<open>
  One atomic section of thread \<open>t\<close>; \<open>now\<close> is the reading of \<open>time.time()\<close>,
  used by line 112 only. A thread that is suspended, has returned or has raised does
  nothing.
\<close>

definition SendMessage_step :: "nat \<Rightarrow> real \<Rightarrow> system \<Rightarrow> system" where
  "SendMessage_step t now sys =
     (if t \<ge> length (threads sys) then sys
      else let th = threads sys ! t in
        case pc th of
          PC_heartbeat \<Rightarrow>
            (case heartbeat (req_id (req th)) now (srv sys) of
               Inl e \<Rightarrow> set_pc t (PC_raised e) sys
             | Inr s' \<Rightarrow> set_pc t PC_append (sys\<lparr>srv := s'\<rparr>))
        | PC_append \<Rightarrow>
            (let (s', notify) = append_section (req_model (req th)) (srv sys);
                 sys' = set_pc t PC_barrier (sys\<lparr>srv := s'\<rparr>)
             in if notify then sys'\<lparr>threads := notify_all (threads sys')\<rparr> else sys')
        | PC_barrier \<Rightarrow> test_barrier t sys
        | PC_waiting \<Rightarrow> sys
        | PC_notified \<Rightarrow> test_barrier t sys
        | PC_aggregate \<Rightarrow>
            (case final_section (srv sys) of
               Inl e \<Rightarrow> set_pc t (PC_raised e) (sys\<lparr>agg_calls := Suc (agg_calls sys)\<rparr>)
             | Inr s' \<Rightarrow> set_pc t PC_returned (sys\<lparr>srv := s', agg_calls := Suc (agg_calls sys)\<rparr>))
        | PC_returned \<Rightarrow> sys
        | PC_raised e \<Rightarrow> sys)"

text \<open>An execution: the scheduler's choices, each with the clock reading of that moment.\<close>

fun run :: "(nat \<times> real) list \<Rightarrow> system \<Rightarrow> system" where
  "run [] sys = sys"
| "run ((t, now) # sch) sys = run sch (SendMessage_step t now sys)"

text \<open>The calls of one round: one thread per request, none started yet.\<close>

definition start :: "server \<Rightarrow> request list \<Rightarrow> system" where
  "start s rs = \<lparr> srv = s, threads = map (\<lambda>r. \<lparr> req = r, pc = PC_heartbeat \<rparr>) rs, agg_calls = 0 \<rparr>"

section \<open>The operations of the server\<close>

text \<open>
  The remote procedures as actions on the server and on its running \<open>SendMessage\<close>
  calls, with the reply each gives. \<open>Act_SendMessage\<close> is the arrival of a call,
  \<open>Act_section\<close> the next section of a running call; both reply nothing yet. A
  \<open>GetID\<close> that never returns makes the whole run \<open>None\<close>. An exception leaves the
  state as it is.
\<close>

datatype reply = ID string nat | Size nat | Model pmap | Empty | Raised error | Pending

datatype action =
    Act_GetID real
  | Act_GetSize "nat \<Rightarrow> real"
  | Act_GetModel
  | Act_SendBye string
  | Act_SendMessage request
  | Act_section nat real

fun apply_action ::
  "(nat \<Rightarrow> nat) \<Rightarrow> action \<Rightarrow> system \<times> nat \<Rightarrow> (reply \<times> system \<times> nat) option" where
  "apply_action draws (Act_GetID now) (sys, pos) =
     (case GetID draws now (srv sys, pos) of
        None \<Rightarrow> None
      | Some ((rid, un), s', pos') \<Rightarrow> Some (ID rid un, sys\<lparr>srv := s'\<rparr>, pos'))"
| "apply_action draws (Act_GetSize clock) (sys, pos) =
     (case GetSize clock (srv sys) of (n, s') \<Rightarrow> Some (Size n, sys\<lparr>srv := s'\<rparr>, pos))"
| "apply_action draws Act_GetModel (sys, pos) = Some (Model (GetModel (srv sys)), sys, pos)"
| "apply_action draws (Act_SendBye uid) (sys, pos) =
     (case SendBye uid (srv sys) of
        Inl e \<Rightarrow> Some (Raised e, sys, pos)
      | Inr s' \<Rightarrow> Some (Empty, sys\<lparr>srv := s'\<rparr>, pos))"
| "apply_action draws (Act_SendMessage r) (sys, pos) =
     Some (Pending, sys\<lparr>threads := threads sys @ [\<lparr>req = r, pc = PC_heartbeat\<rparr>]\<rparr>, pos)"
| "apply_action draws (Act_section t now) (sys, pos) =
     Some (Pending, SendMessage_step t now sys, pos)"

fun run_actions ::
  "(nat \<Rightarrow> nat) \<Rightarrow> action list \<Rightarrow> system \<times> nat \<Rightarrow> (reply list \<times> system \<times> nat) option" where
  "run_actions draws [] st = Some ([], st)"
| "run_actions draws (a # acts) st =
     (case apply_action draws a st of
        None \<Rightarrow> None
      | Some (r, st') \<Rightarrow>
          (case run_actions draws acts st' of
             None \<Rightarrow> None
           | Some (rs, st'') \<Rightarrow> Some (r # rs, st'')))"

section \<open>Notions used to state the properties\<close>

text \<open>The elementwise arithmetic mean of a non-empty list of tensors of one shape.\<close>

definition mean_tensor :: "tensor list \<Rightarrow> tensor" where
  "mean_tensor ts = map (\<lambda>j. (\<Sum>t\<leftarrow>ts. t ! j) / real (length ts)) [0 ..< length (hd ts)]"

text \<open>Every tensor of the map has the shape fixed for its name.\<close>

definition shaped :: "(string \<Rightarrow> nat) \<Rightarrow> pmap \<Rightarrow> bool" where
  "shaped shape m = (\<forall>(name, t) \<in> set m. length t = shape name)"

text \<open>
  What the two loops of \<open>_compute_global_average\<close> leave under one name: the
  accumulator after one more tensor, and after one more map.
\<close>

definition add_opt :: "tensor option \<Rightarrow> tensor \<Rightarrow> tensor" where
  "add_opt acc p = (case acc of None \<Rightarrow> p | Some a \<Rightarrow> map2 (+) a p)"

definition acc_step :: "string \<Rightarrow> tensor option \<Rightarrow> pmap \<Rightarrow> tensor option" where
  "acc_step name acc m = (case map_of m name of None \<Rightarrow> acc | Some p \<Rightarrow> Some (add_opt acc p))"

text \<open>
  The notions below describe one round: \<open>target_clients\<close> calls of \<open>SendMessage\<close>
  started on a server whose collected set is empty. A thread has appended once it is past
  the first \<open>with self.lock\<close> block.
\<close>

fun appended :: "pc \<Rightarrow> bool" where
  "appended PC_heartbeat = False"
| "appended PC_append = False"
| "appended (PC_raised e) = False"
| "appended p = True"

text \<open>The maps of the threads that have appended, as a multiset.\<close>

definition collected :: "thread list \<Rightarrow> pmap multiset" where
  "collected ths =
     image_mset (\<lambda>th. req_model (req th)) (filter_mset (\<lambda>th. appended (pc th)) (mset ths))"

definition returned_count :: "thread list \<Rightarrow> nat" where
  "returned_count ths = length (filter (\<lambda>th. pc th = PC_returned) ths)"

text \<open>
  The number of sections a thread still has to run, and their sum over all threads.
\<close>

fun rank :: "pc \<Rightarrow> nat" where
  "rank PC_heartbeat = 6"
| "rank PC_append = 5"
| "rank PC_barrier = 4"
| "rank PC_waiting = 3"
| "rank PC_notified = 2"
| "rank PC_aggregate = 1"
| "rank PC_returned = 0"
| "rank (PC_raised e) = 0"

definition remaining :: "system \<Rightarrow> nat" where
  "remaining sys = sum_list (map (\<lambda>th. rank (pc th)) (threads sys))"

text \<open>
  The start of a round: nothing collected, as many requests as the quorum, every request
  from a registered id and carrying a well-formed map.
\<close>

definition round_start :: "(string \<Rightarrow> nat) \<Rightarrow> server \<Rightarrow> request list \<Rightarrow> bool" where
  "round_start shape s0 reqs =
     (local_averages s0 = [] \<and> length reqs = target_clients s0
      \<and> (\<forall>r \<in> set reqs. map_of (user_ids s0) (req_id r) \<noteq> None
             \<and> distinct (map fst (req_model r)) \<and> shaped shape (req_model r)))"

text \<open>
  The snapshot is the aggregate of all the requests' maps, taken in some order of arrival.
\<close>

definition published :: "request list \<Rightarrow> pmap option \<Rightarrow> bool" where
  "published reqs sd =
     (\<exists>ms avg. mset ms = mset (map req_model reqs) \<and> accumulate_maps [] ms = Inr avg
         \<and> sd = Some (divide_all (length reqs) avg))"

text \<open>The invariant of a round.\<close>

definition round_inv :: "server \<Rightarrow> request list \<Rightarrow> system \<Rightarrow> bool" where
  "round_inv s0 reqs sys =
     (let ths = threads sys; s = srv sys; c = size (collected ths); T = length reqs in
        map req ths = reqs \<and> target_clients s = T
      \<and> (\<forall>r \<in> set reqs. map_of (user_ids s) (req_id r) \<noteq> None)
      \<and> (\<forall>th \<in> set ths. \<forall>e. pc th \<noteq> PC_raised e)
      \<and> (agg_calls sys = 0 \<longrightarrow>
            mset (local_averages s) = collected ths \<and> state_dict s = state_dict s0
          \<and> (0 < c \<longrightarrow> num_clients s = Some c))
      \<and> (0 < agg_calls sys \<longrightarrow>
            local_averages s = [] \<and> num_clients s = Some T \<and> c = T
          \<and> published reqs (state_dict s))
      \<and> (\<forall>th \<in> set ths. pc th = PC_waiting \<longrightarrow> c < T)
      \<and> (\<forall>th \<in> set ths. pc th \<in> {PC_notified, PC_aggregate, PC_returned} \<longrightarrow> c = T)
      \<and> agg_calls sys = returned_count ths)"


text \<open>
  The session \<open>uid\<close>, of ordinal \<open>n\<close>, is registered and marked dead (in a registry
  that is a dictionary: no id occurs twice).
\<close>

definition marked_dead :: "string \<Rightarrow> nat \<Rightarrow> server \<Rightarrow> bool" where
  "marked_dead uid n s =
     (distinct (map fst (user_ids s))
      \<and> (\<exists>info. map_of (user_ids s) uid = Some info \<and> status info = STATUS_DEAD
             \<and> user_num info = n))"


text \<open>The ids and ordinals that the \<open>GetID\<close> calls of a run replied.\<close>

fun issued :: "reply list \<Rightarrow> (string \<times> nat) list" where
  "issued [] = []"
| "issued (ID rid un # rs) = (rid, un) # issued rs"
| "issued (r # rs) = issued rs"

fun is_GetID :: "action \<Rightarrow> bool" where
  "is_GetID (Act_GetID now) = True"
| "is_GetID a = False"

fun is_SendBye :: "action \<Rightarrow> bool" where
  "is_SendBye (Act_SendBye uid) = True"
| "is_SendBye a = False"

section \<open>Example inputs\<close>

text \<open>A server with two registered clients, and the same server with two collected maps.\<close>

definition ex_model :: pmap where
  "ex_model = [(''w'', [1])]"

definition ex_registry :: server where
  "ex_registry = (init_server ex_model)\<lparr>user_ids :=
     [(''0x1'', \<lparr>user_num = 1, status = STATUS_ALIVE, last_active = 0\<rparr>),
      (''0x2'', \<lparr>user_num = 2, status = STATUS_ALIVE, last_active = 100\<rparr>)]\<rparr>"

definition ex_collected :: server where
  "ex_collected = ex_registry\<lparr>local_averages := [[(''a'', [2])], [(''a'', [4])]],
                               num_clients := Some 2\<rparr>"

definition ex_requests :: "request list" where
  "ex_requests = [\<lparr>req_id = ''0x1'', req_model = [(''a'', [2])]\<rparr>,
                  \<lparr>req_id = ''0x2'', req_model = [(''a'', [4])]\<rparr>]"

definition ex_unknown :: "request list" where
  "ex_unknown = [\<lparr>req_id = ''0x9'', req_model = [(''a'', [2])]\<rparr>]"

text \<open>Three collected maps with a batch-norm entry, on a server whose quorum is two.\<close>

definition ex_collected_bn :: server where
  "ex_collected_bn = ex_registry\<lparr>local_averages :=
     [[(''bn1.weight'', [1]), (''a'', [3, 0])],
      [(''bn1.weight'', [5]), (''a'', [6, 3])],
      [(''a'', [9, 3]), (''bn1.weight'', [7])]],
     num_clients := Some 3\<rparr>"

text \<open>A generator that repeats each output once, and one that is constant.\<close>

definition ex_draws :: "nat \<Rightarrow> nat" where
  "ex_draws i = (i div 2) mod 2"

definition ex_draws_const :: "nat \<Rightarrow> nat" where
  "ex_draws_const i = 0"

text \<open>Schedules of the two calls, and two calls carrying the same id.\<close>

definition ex_schedule :: "(nat \<times> real) list" where
  "ex_schedule = [(0, 1), (0, 1), (0, 1), (1, 2), (1, 2), (1, 2), (1, 2), (0, 3), (0, 3)]"


definition ex_schedule_first :: "(nat \<times> real) list" where
  "ex_schedule_first = [(0, 1), (0, 1), (0, 1)]"


definition ex_duplicate :: "request list" where
  "ex_duplicate = [\<lparr>req_id = ''0x1'', req_model = [(''a'', [2])]\<rparr>,
                   \<lparr>req_id = ''0x1'', req_model = [(''a'', [4])]\<rparr>]"





text \<open>
  A server on which the session \<open>0x1\<close> is marked dead, a run of operations on it and
  the state the run ends in; registrations with a sweep in between, and with a
  deregistration in between.
\<close>

definition ex_dead :: server where
  "ex_dead = ex_registry\<lparr>user_ids :=
     [(''0x1'', \<lparr>user_num = 1, status = STATUS_DEAD, last_active = 0\<rparr>),
      (''0x2'', \<lparr>user_num = 2, status = STATUS_ALIVE, last_active = 100\<rparr>)]\<rparr>"

definition ex_actions :: "action list" where
  "ex_actions =
     [Act_SendMessage \<lparr>req_id = ''0x1'', req_model = [(''a'', [2])]\<rparr>,
      Act_section 0 340, Act_GetSize (\<lambda>k. 350), Act_GetID 360]"

definition ex_after_actions :: system where
  "ex_after_actions =
     \<lparr>srv = ex_registry\<lparr>user_ids :=
        [(''0x1'', \<lparr>user_num = 1, status = STATUS_DEAD, last_active = 340\<rparr>),
         (''0x2'', \<lparr>user_num = 2, status = STATUS_ALIVE, last_active = 100\<rparr>),
         (''0x0'', \<lparr>user_num = 3, status = STATUS_ALIVE, last_active = 360\<rparr>)]\<rparr>,
      threads = [\<lparr>req = \<lparr>req_id = ''0x1'', req_model = [(''a'', [2])]\<rparr>, pc = PC_append\<rparr>],
      agg_calls = 0\<rparr>"

definition ex_registrations :: "action list" where
  "ex_registrations = [Act_GetID 10, Act_GetSize (\<lambda>k. 15), Act_GetID 20]"

definition ex_reregistration :: "action list" where
  "ex_reregistration = [Act_GetID 10, Act_SendBye ''0x0'', Act_GetID 20]"

section \<open>The aggregation on an empty collected set\<close>

text \<open>
  C10: invoked while \<open>local_averages\<close> is empty, the aggregation returns normally and
  leaves the whole server state, in particular the published snapshot
  \<open>state_dict\<close>, exactly as it was; and so does the last section of
  \<open>SendMessage\<close>, which calls it and clears the collected set.
\<close>

theorem compute_global_average_empty:
  assumes "local_averages s = []"
  shows "compute_global_average s = Inr s \<and> final_section s = Inr s"
  using assms by (simp add: compute_global_average_def final_section_def)

theorem compute_global_average_empty_witness:
  "local_averages (init_server ex_model) = []
   \<and> compute_global_average (init_server ex_model) = Inr (init_server ex_model)
   \<and> state_dict (init_server ex_model) = None
   \<and> local_averages (ex_collected\<lparr>local_averages := []\<rparr>) = []
   \<and> compute_global_average (ex_collected\<lparr>local_averages := [], state_dict := Some ex_model\<rparr>)
        = Inr (ex_collected\<lparr>local_averages := [], state_dict := Some ex_model\<rparr>)"
  using compute_global_average_empty [of "init_server ex_model"]
    compute_global_average_empty [of "ex_collected\<lparr>local_averages := [], state_dict := Some ex_model\<rparr>"]
  by (simp add: init_server_def)

lemmas ex_defs = ex_unknown_def ex_model_def ex_registry_def ex_collected_def ex_requests_def
  ex_collected_bn_def init_server_def

section \<open>\<open>GetModel\<close> before and after a round\<close>

text \<open>
  C5, as the code has it: while no aggregate is published, \<open>GetModel\<close> returns the
  parameters of the server's own model (there is no "unset" reply); after a round whose
  last section ran on a non-empty collected set it returns the published aggregate, unless
  that aggregate is an empty map, in which case it returns the server's own model again.
\<close>

theorem GetModel_baseline_or_aggregate:
  "(state_dict s = None \<longrightarrow> GetModel s = model s)
   \<and> (\<forall>s'. final_section s = Inr s' \<and> local_averages s \<noteq> [] \<longrightarrow>
         (\<exists>avg. state_dict s' = Some avg \<and> local_averages s' = []
               \<and> GetModel s' = (if avg = [] then model s else avg)))"
  by (auto simp: GetModel_def final_section_def compute_global_average_def
           split: sum.splits if_splits)

theorem GetModel_baseline_or_aggregate_witness:
  "final_section ex_collected =
      Inr (ex_collected\<lparr>state_dict := Some [(''a'', [3])], local_averages := []\<rparr>)
   \<and> local_averages ex_collected \<noteq> []
   \<and> GetModel (ex_collected\<lparr>state_dict := Some [(''a'', [3])], local_averages := []\<rparr>)
        = [(''a'', [3])]
   \<and> state_dict ex_registry = None
   \<and> GetModel ex_registry = ex_model"
proof -
  have 1: "final_section ex_collected =
      Inr (ex_collected\<lparr>state_dict := Some [(''a'', [3])], local_averages := []\<rparr>)"
    by (simp add: final_section_def compute_global_average_def ex_defs tensor_iadd_def divide_all_def)
  have 2: "local_averages ex_collected \<noteq> []" by (simp add: ex_defs)
  have 3: "state_dict ex_registry = None" by (simp add: ex_defs)
  from GetModel_baseline_or_aggregate [of ex_collected] 1 2
  have 4: "GetModel (ex_collected\<lparr>state_dict := Some [(''a'', [3])], local_averages := []\<rparr>)
        = [(''a'', [3])]"
    by fastforce
  from GetModel_baseline_or_aggregate [of ex_registry] 3
  have 5: "GetModel ex_registry = ex_model" by (simp add: ex_defs)
  from 1 2 3 4 5 show ?thesis by blast
qed

text \<open>
  The claim as stated fails on a server that has published nothing: the reply is the
  parameter map of the server's model.
\<close>

theorem GetModel_unset_counterexample:
  "state_dict ex_registry = None \<and> local_averages ex_registry = []
   \<and> GetModel ex_registry = [(''w'', [1])]"
  by (simp add: ex_defs GetModel_def)

section \<open>The first section of \<open>SendMessage\<close>\<close>

lemma set_pc_simps [simp]:
  "srv (set_pc t p sys) = srv sys"
  "agg_calls (set_pc t p sys) = agg_calls sys"
  "length (threads (set_pc t p sys)) = length (threads sys)"
  "t < length (threads sys) \<Longrightarrow> pc (threads (set_pc t p sys) ! t) = p"
  "t < length (threads sys) \<Longrightarrow> req (threads (set_pc t p sys) ! t) = req (threads sys ! t)"
  "u \<noteq> t \<Longrightarrow> threads (set_pc t p sys) ! u = threads sys ! u"
  by (simp_all add: set_pc_def)

lemma step_raised:
  "t < length (threads sys) \<Longrightarrow> pc (threads sys ! t) = PC_raised e \<Longrightarrow> SendMessage_step t now sys = sys"
  by (simp add: SendMessage_step_def)

lemma run_raised:
  "t < length (threads sys) \<Longrightarrow> pc (threads sys ! t) = PC_raised e \<Longrightarrow>
   \<forall>x \<in> set sch. fst x = t \<Longrightarrow> run sch sys = sys"
  by (induction sch) (auto simp: step_raised)

text \<open>
  C8: the first thing a call of \<open>SendMessage\<close> does is the lookup of its id in
  \<open>user_ids\<close>. With an id that is not registered the call fails there, with the
  \<open>KeyError\<close> of the lookup (the code's unknown-client failure), the server state is
  untouched and the call does nothing further; with a registered id the section sets
  that session's \<open>last_active\<close> to the current time and changes nothing else.
\<close>

theorem SendMessage_first_section:
  assumes "t < length (threads sys)" and "pc (threads sys ! t) = PC_heartbeat"
    and "uid = req_id (req (threads sys ! t))" and "sys' = SendMessage_step t now sys"
  shows "(map_of (user_ids (srv sys)) uid = None \<longrightarrow>
            pc (threads sys' ! t) = PC_raised (KeyError uid) \<and> srv sys' = srv sys
            \<and> (\<forall>sch. (\<forall>x \<in> set sch. fst x = t) \<longrightarrow> run sch sys' = sys'))
       \<and> (\<forall>info. map_of (user_ids (srv sys)) uid = Some info \<longrightarrow>
            pc (threads sys' ! t) = PC_append
            \<and> map_of (user_ids (srv sys')) uid = Some (info\<lparr>last_active := now\<rparr>)
            \<and> (\<forall>u. u \<noteq> uid \<longrightarrow> map_of (user_ids (srv sys')) u = map_of (user_ids (srv sys)) u)
            \<and> map fst (user_ids (srv sys')) = map fst (user_ids (srv sys))
            \<and> local_averages (srv sys') = local_averages (srv sys)
            \<and> state_dict (srv sys') = state_dict (srv sys))"
proof (intro conjI impI allI)
  assume n: "map_of (user_ids (srv sys)) uid = None"
  then have s': "sys' = set_pc t (PC_raised (KeyError uid)) sys"
    using assms by (simp add: SendMessage_step_def heartbeat_def)
  show "pc (threads sys' ! t) = PC_raised (KeyError uid)" using assms(1) by (simp add: s')
  then show "\<And>sch. \<forall>x\<in>set sch. fst x = t \<Longrightarrow> run sch sys' = sys'"
    using run_raised [of t sys'] assms(1) by (simp add: s')
  show "srv sys' = srv sys" by (simp add: s')
next
  fix info assume n: "map_of (user_ids (srv sys)) uid = Some info"
  then have s': "sys' = set_pc t PC_append
      (sys\<lparr>srv := (srv sys)\<lparr>user_ids := AList.update uid (info\<lparr>last_active := now\<rparr>) (user_ids (srv sys))\<rparr>\<rparr>)"
    using assms by (simp add: SendMessage_step_def heartbeat_def)
  show "pc (threads sys' ! t) = PC_append" using assms(1) by (simp add: s')
  show "map_of (user_ids (srv sys')) uid = Some (info\<lparr>last_active := now\<rparr>)"
    by (simp add: s' update_conv')
  show "\<And>u. u \<noteq> uid \<Longrightarrow> map_of (user_ids (srv sys')) u = map_of (user_ids (srv sys)) u"
    by (simp add: s' update_conv')
  show "map fst (user_ids (srv sys')) = map fst (user_ids (srv sys))"
    using n map_of_SomeD [OF n] by (force simp: s' update_keys image_iff)
  show "local_averages (srv sys') = local_averages (srv sys)" by (simp add: s')
  show "state_dict (srv sys') = state_dict (srv sys)" by (simp add: s')
qed

theorem SendMessage_first_section_witness:
  "pc (threads (SendMessage_step 0 7 (start ex_registry ex_requests)) ! 0) = PC_append
   \<and> map_of (user_ids (srv (SendMessage_step 0 7 (start ex_registry ex_requests)))) ''0x1''
        = Some \<lparr>user_num = 1, status = STATUS_ALIVE, last_active = 7\<rparr>
   \<and> local_averages (srv (SendMessage_step 0 7 (start ex_registry ex_requests))) = []
   \<and> map_of (user_ids ex_registry) ''0x9'' = None
   \<and> pc (threads (SendMessage_step 0 7 (start ex_registry ex_unknown)) ! 0)
        = PC_raised (KeyError ''0x9'')
   \<and> srv (SendMessage_step 0 7 (start ex_registry ex_unknown)) = ex_registry"
proof -
  have a: "0 < length (threads (start ex_registry ex_requests))"
    "pc (threads (start ex_registry ex_requests) ! 0) = PC_heartbeat"
    "''0x1'' = req_id (req (threads (start ex_registry ex_requests) ! 0))"
    "map_of (user_ids (srv (start ex_registry ex_requests))) ''0x1''
       = Some \<lparr>user_num = 1, status = STATUS_ALIVE, last_active = 0\<rparr>"
    by (simp_all add: start_def ex_defs)
  have b: "0 < length (threads (start ex_registry ex_unknown))"
    "pc (threads (start ex_registry ex_unknown) ! 0) = PC_heartbeat"
    "''0x9'' = req_id (req (threads (start ex_registry ex_unknown) ! 0))"
    "map_of (user_ids (srv (start ex_registry ex_unknown))) ''0x9'' = None"
    by (simp_all add: start_def ex_defs)
  have c: "srv (start ex_registry ex_unknown) = ex_registry"
    "local_averages (srv (start ex_registry ex_requests)) = []"
    "map_of (user_ids ex_registry) ''0x9'' = None"
    by (simp_all add: start_def ex_defs)
  from SendMessage_first_section [OF a(1) a(2) a(3) refl, of 7] a(4)
       SendMessage_first_section [OF b(1) b(2) b(3) refl, of 7] b(4) c
  show ?thesis by simp
qed

section \<open>\<open>GetSize\<close> and \<open>SendBye\<close>\<close>

lemma sweep_keys: "map fst (sweep clock k us) = map fst us"
  by (induction clock k us rule: sweep.induct) auto

lemma sweep_nth:
  "i < length us \<Longrightarrow> snd (sweep clock k us ! i) =
     (if clock (k + i) - last_active (snd (us ! i)) > 300
      then (snd (us ! i))\<lparr>status := STATUS_DEAD\<rparr> else snd (us ! i))"
proof (induction clock k us arbitrary: i rule: sweep.induct)
  case (1 clock k)
  then show ?case by simp
next
  case (2 clock k uid info rest)
  then show ?case by (cases i) auto
qed

lemma alive_ids_card:
  "length (alive_ids s) = card {i. i < length (user_ids s) \<and> status (snd (user_ids s ! i)) = STATUS_ALIVE}"
  by (simp add: alive_ids_def length_filter_conv_card case_prod_unfold)

lemma SendBye_registered:
  assumes "map_of (user_ids s) uid = Some info"
  shows "SendBye uid s = Inr (s\<lparr>user_ids := AList.delete uid (user_ids s)\<rparr>)"
    and "map_of (AList.delete uid (user_ids s)) uid = None"
  using assms by (simp_all add: SendBye_def delete_conv')

text \<open>
  C6: \<open>GetSize\<close> keeps every session, in place; a session is marked
  \<open>STATUS_DEAD\<close> exactly when the clock reading taken for it exceeds its
  \<open>last_active\<close> by more than 300 seconds, and is otherwise unchanged; the count
  returned is the number of sessions that were alive and are not marked by this sweep;
  and \<open>SendBye\<close> succeeds for a session that is marked dead, removing it.
\<close>

theorem GetSize_marks_and_counts:
  assumes "GetSize clock s = (n, s')"
  shows "map fst (user_ids s') = map fst (user_ids s)
    \<and> (\<forall>i < length (user_ids s).
          snd (user_ids s' ! i) =
            (if clock i - last_active (snd (user_ids s ! i)) > 300
             then (snd (user_ids s ! i))\<lparr>status := STATUS_DEAD\<rparr>
             else snd (user_ids s ! i)))
    \<and> n = card {i. i < length (user_ids s)
                  \<and> status (snd (user_ids s ! i)) = STATUS_ALIVE
                  \<and> \<not> clock i - last_active (snd (user_ids s ! i)) > 300}
    \<and> (\<forall>uid info. map_of (user_ids s') uid = Some info \<and> status info = STATUS_DEAD \<longrightarrow>
          (\<exists>s''. SendBye uid s' = Inr s'' \<and> map_of (user_ids s'') uid = None))"
proof -
  from assms have s': "s' = s\<lparr>user_ids := sweep clock 0 (user_ids s)\<rparr>"
    and n: "n = length (alive_ids s')"
    by (auto simp: GetSize_def Let_def)
  have keys: "map fst (user_ids s') = map fst (user_ids s)"
    by (simp add: s' sweep_keys)
  have len: "length (user_ids s') = length (user_ids s)"
    using keys by (metis length_map)
  have nth: "\<forall>i < length (user_ids s).
          snd (user_ids s' ! i) =
            (if clock i - last_active (snd (user_ids s ! i)) > 300
             then (snd (user_ids s ! i))\<lparr>status := STATUS_DEAD\<rparr>
             else snd (user_ids s ! i))"
    using sweep_nth [of _ "user_ids s" clock 0] by (simp add: s')
  have "{i. i < length (user_ids s') \<and> status (snd (user_ids s' ! i)) = STATUS_ALIVE}
      = {i. i < length (user_ids s)
                  \<and> status (snd (user_ids s ! i)) = STATUS_ALIVE
                  \<and> \<not> clock i - last_active (snd (user_ids s ! i)) > 300}"
    using nth len by (auto split: if_splits)
  then have cnt: "n = card {i. i < length (user_ids s)
                  \<and> status (snd (user_ids s ! i)) = STATUS_ALIVE
                  \<and> \<not> clock i - last_active (snd (user_ids s ! i)) > 300}"
    by (simp add: n alive_ids_card)
  have bye: "\<forall>uid info. map_of (user_ids s') uid = Some info \<and> status info = STATUS_DEAD \<longrightarrow>
          (\<exists>s''. SendBye uid s' = Inr s'' \<and> map_of (user_ids s'') uid = None)"
    using SendBye_registered by fastforce
  from keys nth cnt bye show ?thesis by blast
qed


theorem GetSize_marks_and_counts_witness:
  "GetSize (\<lambda>k. 301) ex_registry =
      (1, ex_registry\<lparr>user_ids :=
         [(''0x1'', \<lparr>user_num = 1, status = STATUS_DEAD, last_active = 0\<rparr>),
          (''0x2'', \<lparr>user_num = 2, status = STATUS_ALIVE, last_active = 100\<rparr>)]\<rparr>)
   \<and> map fst (user_ids (snd (GetSize (\<lambda>k. 301) ex_registry))) = [''0x1'', ''0x2'']
   \<and> (\<exists>s''. SendBye ''0x1'' (snd (GetSize (\<lambda>k. 301) ex_registry)) = Inr s''
             \<and> map_of (user_ids s'') ''0x1'' = None)"
proof -
  let ?s' = "ex_registry\<lparr>user_ids :=
         [(''0x1'', \<lparr>user_num = 1, status = STATUS_DEAD, last_active = 0\<rparr>),
          (''0x2'', \<lparr>user_num = 2, status = STATUS_ALIVE, last_active = 100\<rparr>)]\<rparr>"
  have h: "GetSize (\<lambda>k. 301) ex_registry = (1, ?s')"
    by (simp add: GetSize_def alive_ids_def ex_defs)
  have d: "map_of (user_ids ?s') ''0x1''
             = Some \<lparr>user_num = 1, status = STATUS_DEAD, last_active = 0\<rparr>
           \<and> status \<lparr>user_num = 1, status = STATUS_DEAD, last_active = 0\<rparr> = STATUS_DEAD"
    by simp
  from GetSize_marks_and_counts [OF h] d
  have "map fst (user_ids ?s') = map fst (user_ids ex_registry)"
    and "\<exists>s''. SendBye ''0x1'' ?s' = Inr s'' \<and> map_of (user_ids s'') ''0x1'' = None"
    by blast+
  then show ?thesis using h by (simp add: ex_defs)
qed


section \<open>The aggregate is the elementwise mean\<close>

lemma shaped_map_of: "shaped shape m \<Longrightarrow> map_of m name = Some t \<Longrightarrow> length t = shape name"
  by (auto simp: shaped_def dest: map_of_SomeD)

lemma shaped_update:
  "shaped shape m \<Longrightarrow> length t = shape name \<Longrightarrow> shaped shape (AList.update name t m)"
  by (induction m) (auto simp: shaped_def)

lemma shaped_Cons: "shaped shape ((name, t) # m) = (length t = shape name \<and> shaped shape m)"
  by (simp add: shaped_def)

lemma accumulate_items_ok:
  assumes "distinct (map fst items)" "shaped shape items" "shaped shape avg" "distinct (map fst avg)"
  shows "\<exists>avg'. accumulate_items avg items = Inr avg' \<and> shaped shape avg' \<and> distinct (map fst avg')
          \<and> (\<forall>name. map_of avg' name =
                (if str_contains ''bn'' name then map_of avg name
                 else acc_step name (map_of avg name) items))"
  using assms
proof (induction items arbitrary: avg)
  case Nil
  then show ?case by (simp add: acc_step_def)
next
  case (Cons item rest)
  obtain name param where item: "item = (name, param)" by (cases item)
  from Cons.prems item have d: "distinct (map fst rest)" and nr: "map_of rest name = None"
    and sr: "shaped shape rest" and lp: "length param = shape name"
    by (auto simp: shaped_Cons map_of_eq_None_iff)
  show ?case
  proof (cases "str_contains ''bn'' name")
    case True
    from Cons.IH [OF d sr Cons.prems(3,4)] obtain avg' where
      r: "accumulate_items avg rest = Inr avg'" "shaped shape avg'" "distinct (map fst avg')"
      and m: "\<forall>k. map_of avg' k = (if str_contains ''bn'' k then map_of avg k
                 else acc_step k (map_of avg k) rest)"
      by blast
    have "\<forall>k. map_of avg' k = (if str_contains ''bn'' k then map_of avg k
                 else acc_step k (map_of avg k) (item # rest))"
      using m True by (auto simp: item acc_step_def)
    then show ?thesis using r True by (auto simp: item)
  next
    case False
    define v where "v = add_opt (map_of avg name) param"
    define avg1 where "avg1 = AList.update name v avg"
    have lv: "length v = shape name"
      using lp shaped_map_of [OF Cons.prems(3)]
      by (auto simp: v_def add_opt_def split: option.splits)
    have s1: "shaped shape avg1" unfolding avg1_def by (rule shaped_update [OF Cons.prems(3) lv])
    have d1: "distinct (map fst avg1)" unfolding avg1_def by (simp add: distinct_update Cons.prems(4))
    have step: "accumulate_items avg (item # rest) = accumulate_items avg1 rest"
      using False lp shaped_map_of [OF Cons.prems(3)]
      by (auto simp: item avg1_def v_def add_opt_def tensor_iadd_def split: option.splits)
    from Cons.IH [OF d sr s1 d1] obtain avg' where
      r: "accumulate_items avg1 rest = Inr avg'" "shaped shape avg'" "distinct (map fst avg')"
      and m: "\<forall>k. map_of avg' k = (if str_contains ''bn'' k then map_of avg1 k
                 else acc_step k (map_of avg1 k) rest)"
      by blast
    have "map_of avg' k = (if str_contains ''bn'' k then map_of avg k
                 else acc_step k (map_of avg k) (item # rest))" for k
    proof (cases "k = name")
      case True
      then show ?thesis using m False nr
        by (simp add: acc_step_def item avg1_def v_def update_conv')
    next
      case neq: False
      then show ?thesis using m
        by (simp add: acc_step_def item avg1_def update_conv')
    qed
    then show ?thesis using r step by auto
  qed
qed

lemma accumulate_maps_ok:
  assumes "\<forall>m \<in> set ms. distinct (map fst m) \<and> shaped shape m" "shaped shape avg" "distinct (map fst avg)"
  shows "\<exists>avg'. accumulate_maps avg ms = Inr avg' \<and> shaped shape avg' \<and> distinct (map fst avg')
          \<and> (\<forall>name. map_of avg' name =
                (if str_contains ''bn'' name then map_of avg name
                 else foldl (acc_step name) (map_of avg name) ms))"
  using assms
proof (induction ms arbitrary: avg)
  case Nil
  then show ?case by simp
next
  case (Cons m ms)
  from Cons.prems have dm: "distinct (map fst m)" and sm: "shaped shape m" by simp_all
  from accumulate_items_ok [OF dm sm Cons.prems(2,3)] obtain avg1 where
    r1: "accumulate_items avg m = Inr avg1" "shaped shape avg1" "distinct (map fst avg1)"
    and m1: "\<forall>k. map_of avg1 k = (if str_contains ''bn'' k then map_of avg k
                 else acc_step k (map_of avg k) m)"
    by blast
  from Cons.prems have rest: "\<forall>m \<in> set ms. distinct (map fst m) \<and> shaped shape m" by simp
  from Cons.IH [OF rest r1(2,3)] obtain avg' where
    r: "accumulate_maps avg1 ms = Inr avg'" "shaped shape avg'" "distinct (map fst avg')"
    and m: "\<forall>k. map_of avg' k = (if str_contains ''bn'' k then map_of avg1 k
                 else foldl (acc_step k) (map_of avg1 k) ms)"
    by blast
  have "\<forall>k. map_of avg' k = (if str_contains ''bn'' k then map_of avg k
                 else foldl (acc_step k) (map_of avg k) (m # ms))"
    using m m1 by simp
  then show ?case using r r1 by auto
qed


lemma foldl_acc_step_absent:
  "\<forall>m \<in> set ms. map_of m name = None \<Longrightarrow> foldl (acc_step name) acc ms = acc"
  by (induction ms arbitrary: acc) (auto simp: acc_step_def)

lemma foldl_acc_step_Some:
  assumes "\<forall>m \<in> set ms. \<exists>p. map_of m name = Some p \<and> length p = L" "length a = L"
  shows "foldl (acc_step name) (Some a) ms =
           Some (map (\<lambda>j. a ! j + (\<Sum>m\<leftarrow>ms. the (map_of m name) ! j)) [0 ..< L])"
  using assms
proof (induction ms arbitrary: a)
  case Nil
  have "map (\<lambda>j. a ! j) [0 ..< L] = a" using Nil(2) by (auto intro: nth_equalityI)
  then show ?case by simp
next
  case (Cons m ms)
  from Cons.prems obtain p where p: "map_of m name = Some p" "length p = L" by auto
  let ?a' = "map2 (+) a p"
  have la': "length ?a' = L" using p Cons.prems(2) by simp
  have nth: "\<And>j. j < L \<Longrightarrow> ?a' ! j = a ! j + p ! j" using p Cons.prems(2) by simp
  have "foldl (acc_step name) (Some a) (m # ms) = foldl (acc_step name) (Some ?a') ms"
    by (simp add: acc_step_def add_opt_def p)
  also have "\<dots> = Some (map (\<lambda>j. ?a' ! j + (\<Sum>m\<leftarrow>ms. the (map_of m name) ! j)) [0 ..< L])"
    using Cons.prems by (intro Cons.IH la') simp
  also have "map (\<lambda>j. ?a' ! j + (\<Sum>m\<leftarrow>ms. the (map_of m name) ! j)) [0 ..< L]
      = map (\<lambda>j. a ! j + (\<Sum>m\<leftarrow>m # ms. the (map_of m name) ! j)) [0 ..< L]"
    using nth by (simp add: p add.assoc)
  finally show ?case .
qed

lemma foldl_acc_step_None:
  assumes "ms \<noteq> []" "\<forall>m \<in> set ms. \<exists>p. map_of m name = Some p \<and> length p = L"
  shows "foldl (acc_step name) None ms =
           Some (map (\<lambda>j. (\<Sum>m\<leftarrow>ms. the (map_of m name) ! j)) [0 ..< L])"
proof -
  from assms obtain m ms' where ms: "ms = m # ms'" by (cases ms) auto
  with assms obtain p where p: "map_of m name = Some p" "length p = L" by auto
  have "foldl (acc_step name) None ms = foldl (acc_step name) (Some p) ms'"
    by (simp add: ms acc_step_def add_opt_def p)
  also have "\<dots> = Some (map (\<lambda>j. p ! j + (\<Sum>m\<leftarrow>ms'. the (map_of m name) ! j)) [0 ..< L])"
    using assms(2) p(2) by (intro foldl_acc_step_Some) (simp_all add: ms)
  finally show ?thesis by (simp add: ms p)
qed

lemma map_of_divide_all:
  "map_of (divide_all n avg) name = map_option (map (\<lambda>x. x / real n)) (map_of avg name)"
  by (induction avg) (auto simp: divide_all_def)

text \<open>
  C2: on a non-empty list of collected maps with the same key set \<open>K\<close> (and, for each
  name, tensors of one shape), \<open>_compute_global_average\<close> returns normally and publishes
  a map that has no entry for a name containing \<open>bn\<close> and maps every other name of
  \<open>K\<close> to the elementwise mean of that name's tensors over all collected maps. The
  divisor is the number of collected maps, whatever \<open>target_clients\<close> is. The maps
  \<open>{a: 2.0}\<close> and \<open>{a: 4.0}\<close> give \<open>{a: 3.0}\<close>.
\<close>

theorem compute_global_average_mean:
  assumes "local_averages s \<noteq> []"
    and "\<forall>m \<in> set (local_averages s). distinct (map fst m) \<and> set (map fst m) = K \<and> shaped shape m"
  shows "\<exists>avg. compute_global_average s = Inr (s\<lparr>state_dict := Some avg\<rparr>)
      \<and> (\<forall>name. map_of avg name =
            (if name \<in> K \<and> \<not> str_contains ''bn'' name
             then Some (mean_tensor (map (\<lambda>m. the (map_of m name)) (local_averages s)))
             else None))"
proof -
  let ?ms = "local_averages s"
  have pre: "\<forall>m \<in> set ?ms. distinct (map fst m) \<and> shaped shape m" using assms(2) by blast
  from accumulate_maps_ok [OF pre, of "[]"] obtain acc where
    r: "accumulate_maps [] ?ms = Inr acc"
    and m: "\<forall>name. map_of acc name =
                (if str_contains ''bn'' name then None else foldl (acc_step name) None ?ms)"
    by (auto simp: shaped_def)
  let ?avg = "divide_all (length ?ms) acc"
  have c: "compute_global_average s = Inr (s\<lparr>state_dict := Some ?avg\<rparr>)"
    using assms(1) r by (simp add: compute_global_average_def)
  have "map_of ?avg name =
            (if name \<in> K \<and> \<not> str_contains ''bn'' name
             then Some (mean_tensor (map (\<lambda>m. the (map_of m name)) ?ms))
             else None)" for name
  proof (cases "str_contains ''bn'' name")
    case True
    then show ?thesis using m by (simp add: map_of_divide_all)
  next
    case nb: False
    show ?thesis
    proof (cases "name \<in> K")
      case False
      then have "\<forall>m \<in> set ?ms. map_of m name = None"
        using assms(2) by (auto simp: map_of_eq_None_iff)
      then have "foldl (acc_step name) None ?ms = None" by (rule foldl_acc_step_absent)
      then show ?thesis using m nb False by (simp add: map_of_divide_all)
    next
      case True
      have all: "\<forall>m \<in> set ?ms. \<exists>p. map_of m name = Some p \<and> length p = shape name"
      proof
        fix m assume mm: "m \<in> set ?ms"
        with assms(2) True have "name \<in> fst ` set m" by auto
        then obtain p where p: "map_of m name = Some p"
          by (metis map_of_eq_None_iff not_Some_eq)
        moreover have "length p = shape name"
          using shaped_map_of [OF _ p] assms(2) mm by blast
        ultimately show "\<exists>p. map_of m name = Some p \<and> length p = shape name" by blast
      qed
      have f: "foldl (acc_step name) None ?ms =
           Some (map (\<lambda>j. (\<Sum>m\<leftarrow>?ms. the (map_of m name) ! j)) [0 ..< shape name])"
        by (rule foldl_acc_step_None [OF assms(1) all])
      have hdlen: "length (hd (map (\<lambda>m. the (map_of m name)) ?ms)) = shape name"
        using assms(1) all by (cases ?ms) auto
      have "mean_tensor (map (\<lambda>m. the (map_of m name)) ?ms)
          = map (\<lambda>x. x / real (length ?ms))
              (map (\<lambda>j. (\<Sum>m\<leftarrow>?ms. the (map_of m name) ! j)) [0 ..< shape name])"
        by (simp add: mean_tensor_def hdlen comp_def)
      then show ?thesis using m nb True f by (simp add: map_of_divide_all)
    qed
  qed
  with c show ?thesis by blast
qed


lemma ex_compute:
  "compute_global_average ex_collected = Inr (ex_collected\<lparr>state_dict := Some [(''a'', [3])]\<rparr>)"
  by (simp add: compute_global_average_def ex_defs tensor_iadd_def divide_all_def)

lemma ex_compute_bn:
  "compute_global_average ex_collected_bn
     = Inr (ex_collected_bn\<lparr>state_dict := Some [(''a'', [6, 2])]\<rparr>)"
  by (simp add: compute_global_average_def ex_defs tensor_iadd_def divide_all_def)

lemma ex_mean: "mean_tensor [[3, 0], [6, 3], [9, 3]] = [6, 2]" "mean_tensor [[2], [4]] = [3]"
  by (simp_all add: mean_tensor_def upt_rec)

theorem compute_global_average_mean_witness:
  "target_clients ex_collected_bn = 2 \<and> length (local_averages ex_collected_bn) = 3
   \<and> compute_global_average ex_collected_bn
        = Inr (ex_collected_bn\<lparr>state_dict := Some [(''a'', [6, 2])]\<rparr>)
   \<and> map_of [(''a'', [6, 2 :: real])] ''a''
        = Some (mean_tensor (map (\<lambda>m. the (map_of m ''a'')) (local_averages ex_collected_bn)))
   \<and> compute_global_average ex_collected = Inr (ex_collected\<lparr>state_dict := Some [(''a'', [3])]\<rparr>)
   \<and> map_of [(''a'', [3 :: real])] ''a''
        = Some (mean_tensor (map (\<lambda>m. the (map_of m ''a'')) (local_averages ex_collected)))"
proof -
  have 1: "local_averages ex_collected_bn \<noteq> []" "local_averages ex_collected \<noteq> []"
    by (simp_all add: ex_defs)
  have 2: "\<forall>m \<in> set (local_averages ex_collected_bn).
      distinct (map fst m) \<and> set (map fst m) = {''a'', ''bn1.weight''}
      \<and> shaped (\<lambda>n. if n = ''a'' then 2 else 1) m"
    by (auto simp: ex_defs shaped_def)
  have 3: "\<forall>m \<in> set (local_averages ex_collected).
      distinct (map fst m) \<and> set (map fst m) = {''a''} \<and> shaped (\<lambda>n. 1) m"
    by (simp add: ex_defs shaped_def)
  have 4: "\<not> str_contains ''bn'' ''a''" by simp
  have a: "map_of [(''a'', [6, 2 :: real])] ''a''
        = Some (mean_tensor (map (\<lambda>m. the (map_of m ''a'')) (local_averages ex_collected_bn)))"
  proof -
    from compute_global_average_mean [OF 1(1) 2] obtain avg where
      r: "compute_global_average ex_collected_bn = Inr (ex_collected_bn\<lparr>state_dict := Some avg\<rparr>)"
      and m: "map_of avg ''a'' =
          Some (mean_tensor (map (\<lambda>m. the (map_of m ''a'')) (local_averages ex_collected_bn)))"
      using 4 by fastforce
    from r ex_compute_bn
    have "state_dict (ex_collected_bn\<lparr>state_dict := Some avg\<rparr>)
            = state_dict (ex_collected_bn\<lparr>state_dict := Some [(''a'', [6, 2])]\<rparr>)"
      by simp
    then have "avg = [(''a'', [6, 2])]" by simp
    with m show ?thesis by simp
  qed
  have b: "map_of [(''a'', [3 :: real])] ''a''
        = Some (mean_tensor (map (\<lambda>m. the (map_of m ''a'')) (local_averages ex_collected)))"
  proof -
    from compute_global_average_mean [OF 1(2) 3] obtain avg where
      r: "compute_global_average ex_collected = Inr (ex_collected\<lparr>state_dict := Some avg\<rparr>)"
      and m: "map_of avg ''a'' =
          Some (mean_tensor (map (\<lambda>m. the (map_of m ''a'')) (local_averages ex_collected)))"
      using 4 by fastforce
    from r ex_compute
    have "state_dict (ex_collected\<lparr>state_dict := Some avg\<rparr>)
            = state_dict (ex_collected\<lparr>state_dict := Some [(''a'', [3])]\<rparr>)"
      by simp
    then have "avg = [(''a'', [3])]" by simp
    with m show ?thesis by simp
  qed
  have c: "target_clients ex_collected_bn = 2 \<and> length (local_averages ex_collected_bn) = 3"
    by (simp add: ex_defs)
  from a b c ex_compute ex_compute_bn show ?thesis by blast
qed


section \<open>The id generation loop\<close>

lemma generate_ID_loop_fresh:
  assumes "generate_ID_loop draws ids rid pos = Some y"
  shows "fst y \<notin> set ids"
  by (rule generate_ID_loop.raw_induct [where P = "\<lambda>_ ids _ _ y. fst y \<notin> set ids", OF _ assms])
     (auto split: if_splits)

lemma update_fresh_append:
  "k \<notin> set (map fst al) \<Longrightarrow> AList.update k v al = al @ [(k, v)]"
  by (induction al) auto

lemma generate_ID_loop_returns:
  "draw_id draws (pos + n) \<notin> set ids \<Longrightarrow> \<exists>r. generate_ID_loop draws ids rid pos = Some r"
proof (induction n arbitrary: rid pos)
  case 0
  show ?case
  proof (cases "rid \<in> set ids")
    case True
    then have "generate_ID_loop draws ids rid pos
                = generate_ID_loop draws ids (draw_id draws pos) (Suc pos)"
      by (subst generate_ID_loop.simps) simp
    also have "\<dots> = Some (draw_id draws pos, Suc pos)"
      using 0 by (subst generate_ID_loop.simps) simp
    finally show ?thesis by blast
  next
    case False
    then show ?thesis by (subst generate_ID_loop.simps) simp
  qed
next
  case (Suc n)
  show ?case
  proof (cases "rid \<in> set ids")
    case True
    then have "generate_ID_loop draws ids rid pos
                = generate_ID_loop draws ids (draw_id draws pos) (Suc pos)"
      by (subst generate_ID_loop.simps) simp
    moreover have "\<exists>r. generate_ID_loop draws ids (draw_id draws pos) (Suc pos) = Some r"
      using Suc.IH [of "Suc pos"] Suc.prems by simp
    ultimately show ?thesis by simp
  next
    case False
    then show ?thesis by (subst generate_ID_loop.simps) simp
  qed
qed

lemma GetID_Some:
  assumes "GetID draws now (s, pos) = Some ((rid, un), s', pos')"
  shows "rid \<notin> set (map fst (user_ids s))"
    and "un = length (user_ids s) + 1"
    and "user_ids s' = user_ids s @ [(rid, \<lparr>user_num = un, status = STATUS_ALIVE, last_active = now\<rparr>)]"
    and "local_averages s' = local_averages s" and "state_dict s' = state_dict s"
    and "num_clients s' = num_clients s" and "target_clients s' = target_clients s"
    and "model s' = model s"
proof -
  from assms obtain p where g: "generate_ID draws s pos = Some (rid, p)"
    by (auto simp: GetID_def Let_def split: option.splits)
  then show fresh: "rid \<notin> set (map fst (user_ids s))"
    unfolding generate_ID_def using generate_ID_loop_fresh by fastforce
  show "un = length (user_ids s) + 1"
    using assms g by (auto simp: GetID_def Let_def)
  have upd: "\<And>v. AList.update rid v (user_ids s) = user_ids s @ [(rid, v)]"
    using fresh by (rule update_fresh_append)
  show "user_ids s' = user_ids s @ [(rid, \<lparr>user_num = un, status = STATUS_ALIVE, last_active = now\<rparr>)]"
    using assms g upd by (auto simp: GetID_def Let_def)
  show "local_averages s' = local_averages s" "state_dict s' = state_dict s"
    "num_clients s' = num_clients s" "target_clients s' = target_clients s" "model s' = model s"
    using assms g by (auto simp: GetID_def Let_def)
qed


lemma generate_ID_returns:
  assumes "draw_id draws (pos + n) \<notin> set (map fst (user_ids s))"
  shows "\<exists>r. generate_ID draws s pos = Some r"
proof (cases n)
  case 0
  with assms show ?thesis
    unfolding generate_ID_def by (subst generate_ID_loop.simps) simp
next
  case (Suc m)
  with assms show ?thesis
    unfolding generate_ID_def
    using generate_ID_loop_returns [of draws "Suc pos" m "map fst (user_ids s)"] by simp
qed

lemma GetID_returns:
  assumes "draw_id draws (pos + n) \<notin> set (map fst (user_ids s))"
  shows "\<exists>r. GetID draws now (s, pos) = Some r"
  using generate_ID_returns [OF assms] by (auto simp: GetID_def Let_def)

lemma draw_id_ex_draws:
  "draw_id ex_draws p = (if (p div 2) mod 2 = 0 then ''0x0'' else ''0x1'')"
proof -
  have "(p div 2) mod 2 = 0 \<or> (p div 2) mod 2 = 1" by arith
  then show ?thesis
    by (auto simp: draw_id_def randint_def py_hash_def hex_def hex_digit_def ex_draws_def)
qed

lemma draw_id_const0: "draw_id ex_draws_const p = ''0x0''"
  by (simp add: ex_draws_const_def draw_id_def randint_def py_hash_def hex_def hex_digit_def)


section \<open>One round of \<open>SendMessage\<close> calls\<close>

subsection \<open>Thread lists\<close>

lemma threads_set_pc:
  "threads (set_pc t p sys) = (threads sys)[t := (threads sys ! t)\<lparr>pc := p\<rparr>]"
  by (simp add: set_pc_def)

lemma mset_update_pc:
  assumes "t < length ths"
  shows "mset (ths[t := y]) = add_mset y (mset ths - {#ths ! t#})"
  using assms by (rule mset_update)

lemma collected_update_same:
  assumes "t < length ths" "appended p = appended (pc (ths ! t))"
  shows "collected (ths[t := (ths ! t)\<lparr>pc := p\<rparr>]) = collected ths"
proof -
  have in_M: "ths ! t \<in># mset ths" using assms(1) by simp
  show ?thesis
  proof (cases "appended p")
    case True
    with assms(2) have old: "appended (pc (ths ! t))" by simp
    then have in_F: "ths ! t \<in># filter_mset (\<lambda>th. appended (pc th)) (mset ths)"
      using in_M by simp
    have "collected (ths[t := (ths ! t)\<lparr>pc := p\<rparr>])
        = add_mset (req_model (req (ths ! t)))
            (image_mset (\<lambda>th. req_model (req th))
               (filter_mset (\<lambda>th. appended (pc th)) (mset ths) - {#ths ! t#}))"
      using True old by (simp add: collected_def mset_update_pc [OF assms(1)])
    also have "\<dots> = image_mset (\<lambda>th. req_model (req th))
         (add_mset (ths ! t) (filter_mset (\<lambda>th. appended (pc th)) (mset ths) - {#ths ! t#}))"
      by simp
    also have "\<dots> = collected ths"
      using in_F by (simp add: collected_def)
    finally show ?thesis .
  next
    case False
    with assms(2) have old: "\<not> appended (pc (ths ! t))" by simp
    show ?thesis
      using False old by (simp add: collected_def mset_update_pc [OF assms(1)])
  qed
qed

lemma collected_update_new:
  assumes "t < length ths" "\<not> appended (pc (ths ! t))" "appended p"
  shows "collected (ths[t := (ths ! t)\<lparr>pc := p\<rparr>])
           = add_mset (req_model (req (ths ! t))) (collected ths)"
  using assms by (simp add: collected_def mset_update_pc [OF assms(1)])

lemma collected_notify_all: "collected (notify_all ths) = collected ths"
proof -
  have "collected (notify_all ths) = mset (map (\<lambda>th. req_model (req th))
          (filter (\<lambda>th. appended (pc th)) (notify_all ths)))"
    by (simp add: collected_def)
  also have "\<dots> = mset (map (\<lambda>th. req_model (req th)) (filter (\<lambda>th. appended (pc th)) ths))"
    by (induction ths) (auto simp: notify_all_def)
  finally show ?thesis by (simp add: collected_def)
qed

lemma returned_count_update:
  assumes "t < length ths"
  shows "returned_count (ths[t := (ths ! t)\<lparr>pc := p\<rparr>])
           = returned_count ths - (if pc (ths ! t) = PC_returned then 1 else 0)
               + (if p = PC_returned then 1 else 0)"
proof -
  have rc: "\<And>xs. returned_count xs = size (filter_mset (\<lambda>th. pc th = PC_returned) (mset xs))"
    by (simp add: returned_count_def flip: mset_filter)
  have in_M: "ths ! t \<in># mset ths" using assms by simp
  show ?thesis
    using in_M by (auto simp: rc mset_update_pc [OF assms] size_Diff_singleton)
qed

lemma returned_count_notify_all: "returned_count (notify_all ths) = returned_count ths"
  by (induction ths) (auto simp: notify_all_def returned_count_def)

lemma map_req_update: "map req (ths[t := (ths ! t)\<lparr>pc := p\<rparr>]) = map req ths"
proof (cases "t < length ths")
  case True
  then have "(map req ths)[t := map req ths ! t] = map req ths" by (simp only: list_update_id)
  with True show ?thesis by (simp add: map_update)
next
  case False
  then have "ths[t := (ths ! t)\<lparr>pc := p\<rparr>] = ths" by (simp add: list_update_beyond)
  then show ?thesis by simp
qed

lemma map_req_notify_all: "map req (notify_all ths) = map req ths"
  by (simp add: notify_all_def)

lemma in_set_updateD: "th \<in> set (ths[t := y]) \<Longrightarrow> th = y \<or> th \<in> set ths"
  using set_update_subset_insert [of ths t y] by auto

lemma in_set_notify_allD:
  "th \<in> set (notify_all ths) \<Longrightarrow>
     pc th \<noteq> PC_waiting \<and> (th \<in> set ths \<or> pc th = PC_notified)"
  by (auto simp: notify_all_def)

lemma collected_size_le: "size (collected ths) \<le> length ths"
proof -
  have "size (collected ths) = length (filter (\<lambda>th. appended (pc th)) ths)"
    by (simp add: collected_def flip: mset_filter)
  then show ?thesis by simp
qed

lemma collected_all:
  "size (collected ths) = length ths \<longleftrightarrow> (\<forall>th \<in> set ths. appended (pc th))"
proof -
  have "size (collected ths) = length (filter (\<lambda>th. appended (pc th)) ths)"
    by (simp add: collected_def flip: mset_filter)
  moreover have "(length (filter P ths) = length ths) = (\<forall>th \<in> set ths. P th)" for P
  proof (induction ths)
    case Nil
    show ?case by simp
  next
    case (Cons a ths)
    have "length (filter P ths) \<le> length ths" by (rule length_filter_le)
    then have "length (filter P ths) \<noteq> Suc (length ths)" by arith
    then show ?case using Cons by auto
  qed
  ultimately show ?thesis by simp
qed

lemma collected_all_maps:
  assumes "\<forall>th \<in> set ths. appended (pc th)"
  shows "collected ths = mset (map req_model (map req ths))"
proof -
  have "filter_mset (\<lambda>th. appended (pc th)) (mset ths) = mset ths"
    using assms by (simp add: filter_mset_eq_conv)
  then show ?thesis by (simp add: collected_def comp_def)
qed

subsection \<open>The sections of a call\<close>

lemma step_out_of_range:
  "\<not> t < length (threads sys) \<Longrightarrow> SendMessage_step t now sys = sys"
  by (simp add: SendMessage_step_def)

lemma step_heartbeat:
  assumes "t < length (threads sys)" "pc (threads sys ! t) = PC_heartbeat"
    and "map_of (user_ids (srv sys)) (req_id (req (threads sys ! t))) = Some info"
  shows "SendMessage_step t now sys =
     set_pc t PC_append (sys\<lparr>srv := (srv sys)\<lparr>user_ids :=
        AList.update (req_id (req (threads sys ! t))) (info\<lparr>last_active := now\<rparr>)
          (user_ids (srv sys))\<rparr>\<rparr>)"
  using assms by (simp add: SendMessage_step_def heartbeat_def)

lemma step_append:
  assumes "t < length (threads sys)" "pc (threads sys ! t) = PC_append"
  shows "SendMessage_step t now sys =
     (if target_clients (srv sys) \<le> Suc (length (local_averages (srv sys)))
      then (set_pc t PC_barrier (sys\<lparr>srv := (srv sys)\<lparr>
                local_averages := local_averages (srv sys) @ [req_model (req (threads sys ! t))],
                num_clients := Some (Suc (length (local_averages (srv sys))))\<rparr>\<rparr>))
             \<lparr>threads := notify_all ((threads sys)[t := (threads sys ! t)\<lparr>pc := PC_barrier\<rparr>])\<rparr>
      else set_pc t PC_barrier (sys\<lparr>srv := (srv sys)\<lparr>
                local_averages := local_averages (srv sys) @ [req_model (req (threads sys ! t))],
                num_clients := Some (Suc (length (local_averages (srv sys))))\<rparr>\<rparr>))"
  using assms by (simp add: SendMessage_step_def append_section_def Let_def set_pc_def)

lemma step_test:
  assumes "t < length (threads sys)"
    and "pc (threads sys ! t) = PC_barrier \<or> pc (threads sys ! t) = PC_notified"
    and "num_clients (srv sys) = Some n"
  shows "SendMessage_step t now sys =
           set_pc t (if n < target_clients (srv sys) then PC_waiting else PC_aggregate) sys"
  using assms by (auto simp: SendMessage_step_def test_barrier_def barrier_test_def)

lemma step_aggregate:
  assumes "t < length (threads sys)" "pc (threads sys ! t) = PC_aggregate"
    and "final_section (srv sys) = Inr s'"
  shows "SendMessage_step t now sys =
           set_pc t PC_returned (sys\<lparr>srv := s', agg_calls := Suc (agg_calls sys)\<rparr>)"
  using assms by (simp add: SendMessage_step_def)

lemma step_idle:
  assumes "pc (threads sys ! t) = PC_waiting \<or> pc (threads sys ! t) = PC_returned"
  shows "SendMessage_step t now sys = sys"
  using assms by (auto simp: SendMessage_step_def)

lemma round_invI:
  assumes "map req (threads sys) = reqs" "target_clients (srv sys) = length reqs"
    and "\<forall>r \<in> set reqs. map_of (user_ids (srv sys)) (req_id r) \<noteq> None"
    and "\<forall>th \<in> set (threads sys). \<forall>e. pc th \<noteq> PC_raised e"
    and "agg_calls sys = 0 \<Longrightarrow> mset (local_averages (srv sys)) = collected (threads sys)"
    and "agg_calls sys = 0 \<Longrightarrow> state_dict (srv sys) = state_dict s0"
    and "agg_calls sys = 0 \<Longrightarrow> 0 < size (collected (threads sys)) \<Longrightarrow>
           num_clients (srv sys) = Some (size (collected (threads sys)))"
    and "0 < agg_calls sys \<Longrightarrow> local_averages (srv sys) = []"
    and "0 < agg_calls sys \<Longrightarrow> num_clients (srv sys) = Some (length reqs)"
    and "0 < agg_calls sys \<Longrightarrow> size (collected (threads sys)) = length reqs"
    and "0 < agg_calls sys \<Longrightarrow> published reqs (state_dict (srv sys))"
    and "\<forall>th \<in> set (threads sys). pc th = PC_waiting \<longrightarrow>
           size (collected (threads sys)) < length reqs"
    and "\<forall>th \<in> set (threads sys). pc th \<in> {PC_notified, PC_aggregate, PC_returned} \<longrightarrow>
           size (collected (threads sys)) = length reqs"
    and "agg_calls sys = returned_count (threads sys)"
  shows "round_inv s0 reqs sys"
  unfolding round_inv_def Let_def using assms by blast

lemma round_invD:
  assumes "round_inv s0 reqs sys"
  shows "map req (threads sys) = reqs" "target_clients (srv sys) = length reqs"
    and "\<forall>r \<in> set reqs. map_of (user_ids (srv sys)) (req_id r) \<noteq> None"
    and "\<forall>th \<in> set (threads sys). \<forall>e. pc th \<noteq> PC_raised e"
    and "agg_calls sys = 0 \<Longrightarrow> mset (local_averages (srv sys)) = collected (threads sys)"
    and "agg_calls sys = 0 \<Longrightarrow> state_dict (srv sys) = state_dict s0"
    and "agg_calls sys = 0 \<Longrightarrow> 0 < size (collected (threads sys)) \<Longrightarrow>
           num_clients (srv sys) = Some (size (collected (threads sys)))"
    and "0 < agg_calls sys \<Longrightarrow> local_averages (srv sys) = []"
    and "0 < agg_calls sys \<Longrightarrow> num_clients (srv sys) = Some (length reqs)"
    and "0 < agg_calls sys \<Longrightarrow> size (collected (threads sys)) = length reqs"
    and "0 < agg_calls sys \<Longrightarrow> published reqs (state_dict (srv sys))"
    and "\<forall>th \<in> set (threads sys). pc th = PC_waiting \<longrightarrow>
           size (collected (threads sys)) < length reqs"
    and "\<forall>th \<in> set (threads sys). pc th \<in> {PC_notified, PC_aggregate, PC_returned} \<longrightarrow>
           size (collected (threads sys)) = length reqs"
    and "agg_calls sys = returned_count (threads sys)"
  using assms unfolding round_inv_def Let_def by blast+

lemma round_inv_length:
  "round_inv s0 reqs sys \<Longrightarrow> length (threads sys) = length reqs"
  using round_invD(1) by (metis length_map)

text \<open>A thread that has not appended keeps the collected count below the quorum.\<close>

lemma not_all_appended:
  assumes "round_inv s0 reqs sys" "t < length (threads sys)" "\<not> appended (pc (threads sys ! t))"
  shows "size (collected (threads sys)) < length reqs" "agg_calls sys = 0"
proof -
  have len: "length (threads sys) = length reqs" by (rule round_inv_length [OF assms(1)])
  have "\<not> (\<forall>th \<in> set (threads sys). appended (pc th))"
    using assms(2,3) nth_mem by blast
  then have "size (collected (threads sys)) \<noteq> length (threads sys)"
    by (simp add: collected_all)
  then show c: "size (collected (threads sys)) < length reqs"
    using collected_size_le [of "threads sys"] len by arith
  show "agg_calls sys = 0"
    using round_invD(10) [OF assms(1)] c by auto
qed

lemma collected_start [simp]: "collected (threads (start s0 reqs)) = {#}"
proof -
  have "filter (\<lambda>th. appended (pc th)) (threads (start s0 reqs)) = []"
    by (simp add: start_def filter_empty_conv)
  then have "mset (map (\<lambda>th. req_model (req th))
      (filter (\<lambda>th. appended (pc th)) (threads (start s0 reqs)))) = {#}" by simp
  then show ?thesis by (simp add: collected_def)
qed

lemma returned_count_start [simp]: "returned_count (threads (start s0 reqs)) = 0"
  by (simp add: start_def returned_count_def filter_empty_conv)

lemma start_simps [simp]:
  "srv (start s0 reqs) = s0" "agg_calls (start s0 reqs) = 0"
  "map req (threads (start s0 reqs)) = reqs"
  "length (threads (start s0 reqs)) = length reqs"
  by (simp_all add: start_def comp_def)

lemma start_pc: "th \<in> set (threads (start s0 reqs)) \<Longrightarrow> pc th = PC_heartbeat"
  by (auto simp: start_def)

lemma inv_start:
  assumes "round_start shape s0 reqs"
  shows "round_inv s0 reqs (start s0 reqs)"
proof (rule round_invI)
  show "target_clients (srv (start s0 reqs)) = length reqs"
    using assms by (simp add: round_start_def)
  show "\<forall>r \<in> set reqs. map_of (user_ids (srv (start s0 reqs))) (req_id r) \<noteq> None"
    using assms by (simp add: round_start_def)
  show "mset (local_averages (srv (start s0 reqs))) = collected (threads (start s0 reqs))"
    using assms by (simp add: round_start_def)
  show "\<forall>th \<in> set (threads (start s0 reqs)). \<forall>e. pc th \<noteq> PC_raised e"
    "\<forall>th \<in> set (threads (start s0 reqs)). pc th = PC_waiting \<longrightarrow>
           size (collected (threads (start s0 reqs))) < length reqs"
    "\<forall>th \<in> set (threads (start s0 reqs)).
        pc th \<in> {PC_notified, PC_aggregate, PC_returned} \<longrightarrow>
           size (collected (threads (start s0 reqs))) = length reqs"
    using start_pc [of _ s0 reqs] by auto
qed simp_all

subsection \<open>Every section keeps the invariant\<close>

lemma inv_set_pc_same:
  assumes inv: "round_inv s0 reqs sys" and t: "t < length (threads sys)"
    and same: "appended p = appended (pc (threads sys ! t))"
    and p: "\<forall>e. p \<noteq> PC_raised e" "p \<noteq> PC_returned" "pc (threads sys ! t) \<noteq> PC_returned"
    and pw: "p = PC_waiting \<longrightarrow> size (collected (threads sys)) < length reqs"
    and pa: "p \<in> {PC_notified, PC_aggregate} \<longrightarrow> size (collected (threads sys)) = length reqs"
    and s': "local_averages s' = local_averages (srv sys)" "num_clients s' = num_clients (srv sys)"
      "target_clients s' = target_clients (srv sys)" "state_dict s' = state_dict (srv sys)"
      "\<forall>r \<in> set reqs. map_of (user_ids s') (req_id r) \<noteq> None"
  shows "round_inv s0 reqs (set_pc t p (sys\<lparr>srv := s'\<rparr>))"
proof -
  let ?sys' = "set_pc t p (sys\<lparr>srv := s'\<rparr>)"
  note D = round_invD [OF inv]
  have th': "threads ?sys' = (threads sys)[t := (threads sys ! t)\<lparr>pc := p\<rparr>]"
    by (simp add: threads_set_pc)
  have c: "collected (threads ?sys') = collected (threads sys)"
    unfolding th' by (rule collected_update_same [OF t same])
  have rc: "returned_count (threads ?sys') = returned_count (threads sys)"
    unfolding th' using p(2,3) by (simp add: returned_count_update [OF t])
  have mem: "\<And>th. th \<in> set (threads ?sys') \<Longrightarrow> pc th = p \<or> th \<in> set (threads sys)"
    unfolding th' by (auto dest: in_set_updateD)
  show ?thesis
  proof (rule round_invI)
    show "map req (threads ?sys') = reqs"
      unfolding th' by (simp only: map_req_update D(1))
    show "\<forall>th \<in> set (threads ?sys'). \<forall>e. pc th \<noteq> PC_raised e"
      using mem p(1) D(4) by blast
    show "\<forall>th \<in> set (threads ?sys'). pc th = PC_waiting \<longrightarrow>
           size (collected (threads ?sys')) < length reqs"
      unfolding c using mem pw D(12) by blast
    show "\<forall>th \<in> set (threads ?sys'). pc th \<in> {PC_notified, PC_aggregate, PC_returned} \<longrightarrow>
           size (collected (threads ?sys')) = length reqs"
      unfolding c using mem pa p(2) D(13) by blast
    show "agg_calls ?sys' = returned_count (threads ?sys')"
      using D(14) by (simp add: rc)
  qed (use D s' in \<open>simp_all add: c\<close>)
qed


lemma collected_pos:
  assumes "t < length ths" "appended (pc (ths ! t))"
  shows "0 < size (collected ths)"
proof -
  have "ths ! t \<in># filter_mset (\<lambda>th. appended (pc th)) (mset ths)"
    using assms by simp
  then have "filter_mset (\<lambda>th. appended (pc th)) (mset ths) \<noteq> {#}" by force
  then have "0 < size (filter_mset (\<lambda>th. appended (pc th)) (mset ths))"
    by (simp only: nonempty_has_size)
  then show ?thesis by (simp add: collected_def)
qed

lemma inv_num_clients:
  assumes inv: "round_inv s0 reqs sys" and t: "t < length (threads sys)"
    and a: "appended (pc (threads sys ! t))"
  shows "num_clients (srv sys) = Some (size (collected (threads sys)))"
proof (cases "agg_calls sys = 0")
  case True
  then show ?thesis using round_invD(7) [OF inv] collected_pos [OF t a] by simp
next
  case False
  then show ?thesis using round_invD(9,10) [OF inv] by simp
qed

lemma req_in_reqs:
  assumes "round_inv s0 reqs sys" "t < length (threads sys)"
  shows "req (threads sys ! t) \<in> set reqs"
proof -
  have "threads sys ! t \<in> set (threads sys)" using assms(2) by simp
  then have "req (threads sys ! t) \<in> set (map req (threads sys))" by simp
  then show ?thesis by (simp only: round_invD(1) [OF assms(1)])
qed

lemma inv_step_heartbeat:
  assumes inv: "round_inv s0 reqs sys" and t: "t < length (threads sys)"
    and pc: "pc (threads sys ! t) = PC_heartbeat"
  shows "round_inv s0 reqs (SendMessage_step t now sys)"
proof -
  note D = round_invD [OF inv]
  let ?uid = "req_id (req (threads sys ! t))"
  from req_in_reqs [OF inv t] D(3) obtain info where
    info: "map_of (user_ids (srv sys)) ?uid = Some info" by fastforce
  let ?s' = "(srv sys)\<lparr>user_ids :=
        AList.update ?uid (info\<lparr>last_active := now\<rparr>) (user_ids (srv sys))\<rparr>"
  have step: "SendMessage_step t now sys = set_pc t PC_append (sys\<lparr>srv := ?s'\<rparr>)"
    by (rule step_heartbeat [OF t pc info])
  have reg: "\<forall>r \<in> set reqs. map_of (user_ids ?s') (req_id r) \<noteq> None"
    using D(3) by (simp add: update_conv')
  show ?thesis
    unfolding step by (rule inv_set_pc_same [OF inv t]) (use pc reg in simp_all)
qed

lemma inv_step_test:
  assumes inv: "round_inv s0 reqs sys" and t: "t < length (threads sys)"
    and pc: "pc (threads sys ! t) = PC_barrier \<or> pc (threads sys ! t) = PC_notified"
  shows "round_inv s0 reqs (SendMessage_step t now sys)"
    and "pc (threads (SendMessage_step t now sys) ! t) \<in> {PC_waiting, PC_aggregate}"
    and "pc (threads sys ! t) = PC_notified \<Longrightarrow>
           pc (threads (SendMessage_step t now sys) ! t) = PC_aggregate"
    and "srv (SendMessage_step t now sys) = srv sys"
    and "agg_calls (SendMessage_step t now sys) = agg_calls sys"
proof -
  note D = round_invD [OF inv]
  let ?c = "size (collected (threads sys))"
  have a: "appended (pc (threads sys ! t))" using pc by auto
  have n: "num_clients (srv sys) = Some ?c" by (rule inv_num_clients [OF inv t a])
  have le: "?c \<le> length reqs"
    using collected_size_le [of "threads sys"] round_inv_length [OF inv] by simp
  let ?p = "if ?c < length reqs then PC_waiting else PC_aggregate"
  have step: "SendMessage_step t now sys = set_pc t ?p (sys\<lparr>srv := srv sys\<rparr>)"
    using step_test [OF t pc n] D(2) by simp
  show "round_inv s0 reqs (SendMessage_step t now sys)"
    unfolding step by (rule inv_set_pc_same [OF inv t]) (use pc a le D(3) in auto)
  show "pc (threads (SendMessage_step t now sys) ! t) \<in> {PC_waiting, PC_aggregate}"
    unfolding step using t by simp
  show "srv (SendMessage_step t now sys) = srv sys"
    "agg_calls (SendMessage_step t now sys) = agg_calls sys"
    unfolding step by simp_all
  assume "pc (threads sys ! t) = PC_notified"
  then have "?c = length reqs" using D(13) t nth_mem by blast
  then show "pc (threads (SendMessage_step t now sys) ! t) = PC_aggregate"
    unfolding step using t by simp
qed

lemma inv_step_append:
  assumes inv: "round_inv s0 reqs sys" and t: "t < length (threads sys)"
    and pc: "pc (threads sys ! t) = PC_append"
  shows "round_inv s0 reqs (SendMessage_step t now sys)"
proof -
  note D = round_invD [OF inv]
  let ?ths = "threads sys" and ?s = "srv sys"
  let ?c = "size (collected ?ths)"
  let ?m = "req_model (req (?ths ! t))"
  have na: "\<not> appended (pc (?ths ! t))" using pc by simp
  have c: "?c < length reqs" and agg: "agg_calls sys = 0"
    using not_all_appended [OF inv t na] by simp_all
  have la: "mset (local_averages ?s) = collected ?ths" using D(5) agg by simp
  then have len: "length (local_averages ?s) = ?c" by (metis size_mset)
  let ?s1 = "?s\<lparr>local_averages := local_averages ?s @ [?m], num_clients := Some (Suc ?c)\<rparr>"
  let ?X = "?ths[t := (?ths ! t)\<lparr>pc := PC_barrier\<rparr>]"
  let ?base = "set_pc t PC_barrier (sys\<lparr>srv := ?s1\<rparr>)"
  have step: "SendMessage_step t now sys =
      (if length reqs \<le> Suc ?c then ?base\<lparr>threads := notify_all ?X\<rparr> else ?base)"
    using step_append [OF t pc, of now] by (simp add: len D(2))
  have cX: "collected ?X = add_mset ?m (collected ?ths)"
    by (rule collected_update_new [OF t na]) simp
  have rX: "returned_count ?X = returned_count ?ths"
    using pc by (simp add: returned_count_update [OF t])
  have memX: "\<And>th. th \<in> set ?X \<Longrightarrow> pc th = PC_barrier \<or> th \<in> set ?ths"
    by (auto dest: in_set_updateD)
  have rc0: "returned_count ?ths = 0" using D(14) agg by simp
  have none_passed: "\<And>th. th \<in> set ?ths \<Longrightarrow>
      pc th \<noteq> PC_notified \<and> pc th \<noteq> PC_aggregate \<and> pc th \<noteq> PC_returned"
    using D(13) c by auto
  show ?thesis
  proof (cases "length reqs \<le> Suc ?c")
    case True
    then have full: "Suc ?c = length reqs" using c by simp
    let ?sys' = "?base\<lparr>threads := notify_all ?X\<rparr>"
    have mem: "\<And>th. th \<in> set (notify_all ?X) \<Longrightarrow>
        pc th \<noteq> PC_waiting \<and> (pc th = PC_barrier \<or> pc th = PC_notified \<or> th \<in> set ?ths)"
      using in_set_notify_allD memX by blast
    have "round_inv s0 reqs ?sys'"
    proof (rule round_invI)
      show "map req (threads ?sys') = reqs"
        by (simp add: map_req_notify_all map_req_update D(1))
      show "\<forall>th \<in> set (threads ?sys'). \<forall>e. pc th \<noteq> PC_raised e"
        using mem D(4) by fastforce
      show "mset (local_averages (srv ?sys')) = collected (threads ?sys')"
        by (simp add: collected_notify_all cX la)
      show "\<forall>th \<in> set (threads ?sys'). pc th = PC_waiting \<longrightarrow>
           size (collected (threads ?sys')) < length reqs"
        using mem by simp
      show "\<forall>th \<in> set (threads ?sys').
          pc th \<in> {PC_notified, PC_aggregate, PC_returned} \<longrightarrow>
           size (collected (threads ?sys')) = length reqs"
        by (simp add: collected_notify_all cX full)
      show "agg_calls ?sys' = returned_count (threads ?sys')"
        by (simp add: returned_count_notify_all rX rc0 agg)
    qed (use D agg in \<open>simp_all add: collected_notify_all cX\<close>)
    then show ?thesis using True by (simp only: step if_True)
  next
    case False
    then have less: "Suc ?c < length reqs" by simp
    have "round_inv s0 reqs ?base"
    proof (rule round_invI)
      show "map req (threads ?base) = reqs"
        by (simp add: threads_set_pc map_req_update D(1))
      show "\<forall>th \<in> set (threads ?base). \<forall>e. pc th \<noteq> PC_raised e"
        using memX D(4) by (fastforce simp: threads_set_pc)
      show "mset (local_averages (srv ?base)) = collected (threads ?base)"
        by (simp add: threads_set_pc cX la)
      show "\<forall>th \<in> set (threads ?base). pc th = PC_waiting \<longrightarrow>
           size (collected (threads ?base)) < length reqs"
        using less by (simp add: threads_set_pc cX)
      show "\<forall>th \<in> set (threads ?base).
          pc th \<in> {PC_notified, PC_aggregate, PC_returned} \<longrightarrow>
           size (collected (threads ?base)) = length reqs"
        using memX none_passed by (fastforce simp: threads_set_pc)
      show "agg_calls ?base = returned_count (threads ?base)"
        by (simp add: threads_set_pc rX rc0 agg)
    qed (use D agg in \<open>simp_all add: threads_set_pc cX\<close>)
    then show ?thesis using False by (simp only: step if_False)
  qed
qed


lemma final_section_empty:
  "local_averages s = [] \<Longrightarrow> final_section s = Inr s"
  by (simp add: final_section_def compute_global_average_def)

lemma final_section_nonempty:
  assumes "local_averages s \<noteq> []" "accumulate_maps [] (local_averages s) = Inr avg"
  shows "final_section s = Inr (s\<lparr>state_dict := Some (divide_all (length (local_averages s)) avg),
                                  local_averages := []\<rparr>)"
  using assms by (simp add: final_section_def compute_global_average_def)

lemma inv_step_aggregate:
  assumes start: "round_start shape s0 reqs"
    and inv: "round_inv s0 reqs sys" and t: "t < length (threads sys)"
    and pc: "pc (threads sys ! t) = PC_aggregate"
  shows "round_inv s0 reqs (SendMessage_step t now sys)"
    and "pc (threads (SendMessage_step t now sys) ! t) = PC_returned"
    and "agg_calls (SendMessage_step t now sys) = Suc (agg_calls sys)"
    and "0 < agg_calls sys \<Longrightarrow> srv (SendMessage_step t now sys) = srv sys"
    and "agg_calls sys = 0 \<Longrightarrow>
           \<exists>avg. accumulate_maps [] (local_averages (srv sys)) = Inr avg
             \<and> mset (local_averages (srv sys)) = mset (map req_model reqs)
             \<and> srv (SendMessage_step t now sys) =
                 (srv sys)\<lparr>state_dict := Some (divide_all (length reqs) avg),
                           local_averages := []\<rparr>"
proof -
  note D = round_invD [OF inv]
  let ?ths = "threads sys" and ?s = "srv sys"
  have len: "length ?ths = length reqs" by (rule round_inv_length [OF inv])
  have cT: "size (collected ?ths) = length reqs"
    using D(13) t pc nth_mem by blast
  then have all: "\<forall>th \<in> set ?ths. appended (pc th)"
    using collected_all [of ?ths] len by simp
  have call: "collected ?ths = mset (map req_model reqs)"
    using collected_all_maps [OF all] D(1) by simp
  have a: "appended (pc (?ths ! t))" using pc by simp
  have n: "num_clients ?s = Some (length reqs)"
    using inv_num_clients [OF inv t a] cT by simp
  have \<section>: "\<exists>s'. final_section ?s = Inr s'
      \<and> local_averages s' = [] \<and> num_clients s' = num_clients ?s
      \<and> target_clients s' = target_clients ?s \<and> user_ids s' = user_ids ?s
      \<and> published reqs (state_dict s')
      \<and> (0 < agg_calls sys \<longrightarrow> s' = ?s)
      \<and> (agg_calls sys = 0 \<longrightarrow>
            (\<exists>avg. accumulate_maps [] (local_averages ?s) = Inr avg
             \<and> mset (local_averages ?s) = mset (map req_model reqs)
             \<and> s' = ?s\<lparr>state_dict := Some (divide_all (length reqs) avg),
                           local_averages := []\<rparr>))"
  proof (cases "agg_calls sys = 0")
    case True
    have la: "mset (local_averages ?s) = mset (map req_model reqs)"
      using D(5) True call by simp
    then have lenla: "length (local_averages ?s) = length reqs"
      by (metis size_mset length_map)
    have ne: "local_averages ?s \<noteq> []" using lenla len t by auto
    have "set (local_averages ?s) = set (map req_model reqs)" using la by (rule mset_eq_setD)
    then have ok: "\<forall>m \<in> set (local_averages ?s). distinct (map fst m) \<and> shaped shape m"
      using start by (auto simp: round_start_def)
    from accumulate_maps_ok [OF ok, of "[]"] obtain avg where
      avg: "accumulate_maps [] (local_averages ?s) = Inr avg"
      by (auto simp: shaped_def)
    have pub: "published reqs (Some (divide_all (length reqs) avg))"
      unfolding published_def using la avg by blast
    define s1 where
      "s1 = ?s\<lparr>state_dict := Some (divide_all (length reqs) avg), local_averages := []\<rparr>"
    have fs: "final_section ?s = Inr s1"
      using final_section_nonempty [OF ne avg] by (simp only: lenla s1_def)
    have fields: "local_averages s1 = []" "num_clients s1 = num_clients ?s"
      "target_clients s1 = target_clients ?s" "user_ids s1 = user_ids ?s"
      by (simp_all add: s1_def)
    have pub': "published reqs (state_dict s1)" using pub by (simp add: s1_def)
    have ex: "\<exists>avg. accumulate_maps [] (local_averages ?s) = Inr avg
             \<and> mset (local_averages ?s) = mset (map req_model reqs)
             \<and> s1 = ?s\<lparr>state_dict := Some (divide_all (length reqs) avg),
                           local_averages := []\<rparr>"
      using avg la s1_def by blast
    have no: "\<not> 0 < agg_calls sys" using True by simp
    show ?thesis
    proof (intro exI [of _ s1] conjI impI)
      show "final_section ?s = Inr s1" by (rule fs)
      show "published reqs (state_dict s1)" by (rule pub')
      show "s1 = ?s" if "0 < agg_calls sys" using that no by simp
      show "\<exists>avg. accumulate_maps [] (local_averages ?s) = Inr avg
             \<and> mset (local_averages ?s) = mset (map req_model reqs)
             \<and> s1 = ?s\<lparr>state_dict := Some (divide_all (length reqs) avg),
                           local_averages := []\<rparr>" by (rule ex)
    qed (rule fields)+
  next
    case False
    then have pos: "0 < agg_calls sys" by simp
    have fs: "final_section ?s = Inr ?s" using D(8) [OF pos] by (rule final_section_empty)
    have no: "agg_calls sys \<noteq> 0" using pos by simp
    show ?thesis
    proof (intro exI [of _ ?s] conjI impI)
      show "final_section ?s = Inr ?s" by (rule fs)
      show "local_averages ?s = []" by (rule D(8) [OF pos])
      show "published reqs (state_dict ?s)" by (rule D(11) [OF pos])
      show "\<exists>avg. accumulate_maps [] (local_averages ?s) = Inr avg
             \<and> mset (local_averages ?s) = mset (map req_model reqs)
             \<and> ?s = ?s\<lparr>state_dict := Some (divide_all (length reqs) avg),
                           local_averages := []\<rparr>" if "agg_calls sys = 0"
        using that no by simp
    qed (rule refl)+
  qed
  then obtain s' where big: "final_section ?s = Inr s'
      \<and> local_averages s' = [] \<and> num_clients s' = num_clients ?s
      \<and> target_clients s' = target_clients ?s \<and> user_ids s' = user_ids ?s
      \<and> published reqs (state_dict s')
      \<and> (0 < agg_calls sys \<longrightarrow> s' = ?s)
      \<and> (agg_calls sys = 0 \<longrightarrow>
            (\<exists>avg. accumulate_maps [] (local_averages ?s) = Inr avg
             \<and> mset (local_averages ?s) = mset (map req_model reqs)
             \<and> s' = ?s\<lparr>state_dict := Some (divide_all (length reqs) avg),
                           local_averages := []\<rparr>))" ..
  have fs: "final_section ?s = Inr s'" using big by (elim conjE)
  have s'1: "local_averages s' = []" using big by (elim conjE)
  have s'2: "num_clients s' = num_clients ?s" using big by (elim conjE)
  have s'3: "target_clients s' = target_clients ?s" using big by (elim conjE)
  have s'4: "user_ids s' = user_ids ?s" using big by (elim conjE)
  have s'5: "published reqs (state_dict s')" using big by (elim conjE)
  note s' = s'1 s'2 s'3 s'4 s'5
  have same: "0 < agg_calls sys \<longrightarrow> s' = ?s" using big by (elim conjE)
  have first: "agg_calls sys = 0 \<longrightarrow>
            (\<exists>avg. accumulate_maps [] (local_averages ?s) = Inr avg
             \<and> mset (local_averages ?s) = mset (map req_model reqs)
             \<and> s' = ?s\<lparr>state_dict := Some (divide_all (length reqs) avg),
                           local_averages := []\<rparr>)"
    using big by (elim conjE)
  let ?sys' = "set_pc t PC_returned (sys\<lparr>srv := s', agg_calls := Suc (agg_calls sys)\<rparr>)"
  have step: "SendMessage_step t now sys = ?sys'" by (rule step_aggregate [OF t pc fs])
  have th': "threads ?sys' = ?ths[t := (?ths ! t)\<lparr>pc := PC_returned\<rparr>]"
    by (simp add: threads_set_pc)
  have c': "collected (threads ?sys') = collected ?ths"
    unfolding th' by (rule collected_update_same [OF t]) (simp add: pc)
  have rc': "returned_count (threads ?sys') = Suc (returned_count ?ths)"
    unfolding th' using pc by (simp add: returned_count_update [OF t])
  have mem: "\<And>th. th \<in> set (threads ?sys') \<Longrightarrow> pc th = PC_returned \<or> th \<in> set ?ths"
    unfolding th' by (auto dest: in_set_updateD)
  have "round_inv s0 reqs ?sys'"
  proof (rule round_invI)
    show "map req (threads ?sys') = reqs"
      unfolding th' by (simp only: map_req_update D(1))
    show "\<forall>th \<in> set (threads ?sys'). \<forall>e. pc th \<noteq> PC_raised e"
      using mem D(4) by fastforce
    show "\<forall>th \<in> set (threads ?sys'). pc th = PC_waiting \<longrightarrow>
           size (collected (threads ?sys')) < length reqs"
      unfolding c' using mem D(12) by fastforce
    show "\<forall>th \<in> set (threads ?sys').
          pc th \<in> {PC_notified, PC_aggregate, PC_returned} \<longrightarrow>
           size (collected (threads ?sys')) = length reqs"
      unfolding c' using cT by simp
    have "agg_calls ?sys' = Suc (agg_calls sys)" by simp
    also have "\<dots> = Suc (returned_count ?ths)" using D(14) by simp
    also have "\<dots> = returned_count (threads ?sys')" by (simp only: rc')
    finally show "agg_calls ?sys' = returned_count (threads ?sys')" .
    show "target_clients (srv ?sys') = length reqs"
      using D(2) s'(3) by simp
    show "\<forall>r \<in> set reqs. map_of (user_ids (srv ?sys')) (req_id r) \<noteq> None"
      using D(3) s'(4) by simp
    show "local_averages (srv ?sys') = []" using s'(1) by simp
    show "num_clients (srv ?sys') = Some (length reqs)" using s'(2) n by simp
    show "size (collected (threads ?sys')) = length reqs" using cT by (simp only: c')
    show "published reqs (state_dict (srv ?sys'))" using s'(5) by simp
  qed simp_all
  then show "round_inv s0 reqs (SendMessage_step t now sys)" by (simp only: step)
  show "pc (threads (SendMessage_step t now sys) ! t) = PC_returned"
    unfolding step using t by simp
  show "agg_calls (SendMessage_step t now sys) = Suc (agg_calls sys)"
    unfolding step by simp
  show "0 < agg_calls sys \<Longrightarrow> srv (SendMessage_step t now sys) = srv sys"
    unfolding step using same by simp
  show "agg_calls sys = 0 \<Longrightarrow>
           \<exists>avg. accumulate_maps [] (local_averages (srv sys)) = Inr avg
             \<and> mset (local_averages (srv sys)) = mset (map req_model reqs)
             \<and> srv (SendMessage_step t now sys) =
                 (srv sys)\<lparr>state_dict := Some (divide_all (length reqs) avg),
                           local_averages := []\<rparr>"
    unfolding step using first by simp
qed

lemma inv_step:
  assumes "round_start shape s0 reqs" "round_inv s0 reqs sys"
  shows "round_inv s0 reqs (SendMessage_step t now sys)"
proof (cases "t < length (threads sys)")
  case False
  then show ?thesis using assms(2) by (simp add: step_out_of_range)
next
  case True
  have nr: "\<And>e. pc (threads sys ! t) \<noteq> PC_raised e"
    using round_invD(4) [OF assms(2)] True nth_mem by blast
  show ?thesis
  proof (cases "pc (threads sys ! t)")
    case PC_heartbeat
    then show ?thesis by (rule inv_step_heartbeat [OF assms(2) True])
  next
    case PC_append
    then show ?thesis by (rule inv_step_append [OF assms(2) True])
  next
    case PC_barrier
    then show ?thesis using inv_step_test(1) [OF assms(2) True] by simp
  next
    case PC_waiting
    then show ?thesis using assms(2) by (simp add: step_idle)
  next
    case PC_notified
    then show ?thesis using inv_step_test(1) [OF assms(2) True] by simp
  next
    case PC_aggregate
    then show ?thesis by (rule inv_step_aggregate(1) [OF assms True])
  next
    case PC_returned
    then show ?thesis using assms(2) by (simp add: step_idle)
  next
    case (PC_raised e)
    then show ?thesis using nr by simp
  qed
qed

lemma inv_run:
  assumes "round_start shape s0 reqs" "round_inv s0 reqs sys"
  shows "round_inv s0 reqs (run sch sys)"
  using assms(2)
proof (induction sch arbitrary: sys)
  case Nil
  then show ?case by simp
next
  case (Cons a sch)
  obtain t now where a: "a = (t, now)" by (cases a)
  show ?case
    unfolding a run.simps by (rule Cons.IH) (rule inv_step [OF assms(1) Cons.prems])
qed

lemma inv_reachable:
  assumes "round_start shape s0 reqs"
  shows "round_inv s0 reqs (run sch (start s0 reqs))"
  by (rule inv_run [OF assms inv_start [OF assms]])

subsection \<open>Progress\<close>

lemma remaining_set_pc:
  assumes "t < length (threads sys)" "threads sys' = threads sys"
    and "rank p < rank (pc (threads sys ! t))"
  shows "remaining (set_pc t p sys') < remaining sys"
proof -
  let ?f = "\<lambda>th. rank (pc th)"
  let ?xs = "map ?f (threads sys)"
  have "map ?f (threads (set_pc t p sys')) = ?xs[t := rank p]"
    using assms(1,2) by (simp add: threads_set_pc map_update)
  then have "remaining (set_pc t p sys') = sum_list ?xs + rank p - ?xs ! t"
    using assms(1) by (simp add: remaining_def sum_list_update)
  moreover have "?xs ! t \<le> sum_list ?xs"
    using assms(1) by (intro member_le_sum_list) simp_all
  moreover have "?xs ! t = rank (pc (threads sys ! t))" using assms(1) by simp
  ultimately show ?thesis using assms(3) by (simp add: remaining_def)
qed

lemma remaining_notify_all:
  "sum_list (map (\<lambda>th. rank (pc th)) (notify_all ths)) \<le> sum_list (map (\<lambda>th. rank (pc th)) ths)"
  by (induction ths) (auto simp: notify_all_def)

lemma step_decreases:
  assumes inv: "round_inv s0 reqs sys" and t: "t < length (threads sys)"
    and pc: "pc (threads sys ! t) \<noteq> PC_waiting" "pc (threads sys ! t) \<noteq> PC_returned"
  shows "remaining (SendMessage_step t now sys) < remaining sys"
proof -
  note D = round_invD [OF inv]
  have nr: "\<And>e. pc (threads sys ! t) \<noteq> PC_raised e"
    using D(4) t nth_mem by blast
  consider (hb) "pc (threads sys ! t) = PC_heartbeat" | (ap) "pc (threads sys ! t) = PC_append"
    | (te) "pc (threads sys ! t) = PC_barrier \<or> pc (threads sys ! t) = PC_notified"
    | (ag) "pc (threads sys ! t) = PC_aggregate"
    using pc nr by (cases "pc (threads sys ! t)") auto
  then show ?thesis
  proof cases
    case hb
    from req_in_reqs [OF inv t] D(3) obtain info where
      info: "map_of (user_ids (srv sys)) (req_id (req (threads sys ! t))) = Some info"
      by fastforce
    show ?thesis
      unfolding step_heartbeat [OF t hb info]
      by (rule remaining_set_pc [OF t]) (simp_all add: hb)
  next
    case ap
    let ?base = "set_pc t PC_barrier (sys\<lparr>srv := (srv sys)\<lparr>
                local_averages := local_averages (srv sys) @ [req_model (req (threads sys ! t))],
                num_clients := Some (Suc (length (local_averages (srv sys))))\<rparr>\<rparr>)"
    have b: "remaining ?base < remaining sys"
      by (rule remaining_set_pc [OF t]) (simp_all add: ap)
    have th: "threads ?base = (threads sys)[t := (threads sys ! t)\<lparr>pc := PC_barrier\<rparr>]"
      by (simp add: threads_set_pc)
    have "remaining (?base\<lparr>threads := notify_all (threads ?base)\<rparr>) \<le> remaining ?base"
      using remaining_notify_all [of "threads ?base"] by (simp add: remaining_def)
    then have n: "remaining (?base\<lparr>threads :=
        notify_all ((threads sys)[t := (threads sys ! t)\<lparr>pc := PC_barrier\<rparr>])\<rparr>) < remaining sys"
      using b by (simp only: th)
    show ?thesis
      unfolding step_append [OF t ap] using b n by simp
  next
    case te
    have a: "appended (pc (threads sys ! t))" using te by auto
    have n: "num_clients (srv sys) = Some (size (collected (threads sys)))"
      by (rule inv_num_clients [OF inv t a])
    have not: "pc (threads sys ! t) = PC_notified \<Longrightarrow>
        \<not> size (collected (threads sys)) < target_clients (srv sys)"
      using D(13) D(2) t nth_mem by fastforce
    show ?thesis
      unfolding step_test [OF t te n]
      by (rule remaining_set_pc [OF t]) (use te not in auto)
  next
    case ag
    show ?thesis
    proof (cases "final_section (srv sys)")
      case (Inl e)
      then have "SendMessage_step t now sys =
          set_pc t (PC_raised e) (sys\<lparr>agg_calls := Suc (agg_calls sys)\<rparr>)"
        using t ag by (simp add: SendMessage_step_def)
      then show ?thesis
        using remaining_set_pc [OF t, of "sys\<lparr>agg_calls := Suc (agg_calls sys)\<rparr>" "PC_raised e"]
        by (simp add: ag)
    next
      case (Inr s')
      show ?thesis
        unfolding step_aggregate [OF t ag Inr]
        by (rule remaining_set_pc [OF t]) (simp_all add: ag)
    qed
  qed
qed


lemma step_changes:
  assumes "round_inv s0 reqs sys" "SendMessage_step t now sys \<noteq> sys"
  shows "remaining (SendMessage_step t now sys) < remaining sys"
proof -
  have t: "t < length (threads sys)"
    using assms(2) step_out_of_range by blast
  have "pc (threads sys ! t) \<noteq> PC_waiting" "pc (threads sys ! t) \<noteq> PC_returned"
    using assms(2) step_idle by blast+
  then show ?thesis by (rule step_decreases [OF assms(1) t])
qed

lemma progress:
  assumes inv: "round_inv s0 reqs sys"
    and some: "\<exists>th \<in> set (threads sys). pc th \<noteq> PC_returned"
  shows "\<exists>t < length reqs. SendMessage_step t now sys \<noteq> sys"
proof -
  note D = round_invD [OF inv]
  have len: "length (threads sys) = length reqs" by (rule round_inv_length [OF inv])
  have "\<exists>th \<in> set (threads sys). pc th \<noteq> PC_returned \<and> pc th \<noteq> PC_waiting"
  proof (rule ccontr)
    assume "\<not> ?thesis"
    then have all: "\<forall>th \<in> set (threads sys). pc th = PC_returned \<or> pc th = PC_waiting"
      by blast
    then have "\<forall>th \<in> set (threads sys). appended (pc th)" by fastforce
    then have full: "size (collected (threads sys)) = length reqs"
      using collected_all [of "threads sys"] len by simp
    from some all obtain th where "th \<in> set (threads sys)" "pc th = PC_waiting" by blast
    then have "size (collected (threads sys)) < length reqs" using D(12) by blast
    then show False using full by simp
  qed
  then obtain t where t: "t < length (threads sys)"
    and pc: "pc (threads sys ! t) \<noteq> PC_returned" "pc (threads sys ! t) \<noteq> PC_waiting"
    by (metis in_set_conv_nth)
  have "remaining (SendMessage_step t now sys) < remaining sys"
    by (rule step_decreases [OF inv t pc(2,1)])
  then have "SendMessage_step t now sys \<noteq> sys" by auto
  then show ?thesis using t len by auto
qed

lemma stable_step:
  assumes start: "round_start shape s0 reqs" and inv: "round_inv s0 reqs sys"
    and pos: "0 < agg_calls sys"
  shows "state_dict (srv (SendMessage_step t now sys)) = state_dict (srv sys)
       \<and> 0 < agg_calls (SendMessage_step t now sys)"
proof (cases "t < length (threads sys)")
  case False
  then show ?thesis using pos by (simp add: step_out_of_range)
next
  case True
  have ap: "appended (pc (threads sys ! t))"
    using not_all_appended(2) [OF inv True] pos by auto
  show ?thesis
  proof (cases "pc (threads sys ! t) = PC_barrier \<or> pc (threads sys ! t) = PC_notified")
    case te: True
    show ?thesis using inv_step_test(4,5) [OF inv True te, of now] pos by simp
  next
    case nte: False
    show ?thesis
    proof (cases "pc (threads sys ! t) = PC_aggregate")
      case ag: True
      show ?thesis
        using inv_step_aggregate(3,4) [OF start inv True ag, of now] pos by simp
    next
      case False
      then have "pc (threads sys ! t) = PC_waiting \<or> pc (threads sys ! t) = PC_returned"
        using ap nte by (cases "pc (threads sys ! t)") auto
      then show ?thesis using pos by (simp add: step_idle)
    qed
  qed
qed

lemma stable_run:
  assumes start: "round_start shape s0 reqs"
  shows "round_inv s0 reqs sys \<Longrightarrow> 0 < agg_calls sys \<Longrightarrow>
          state_dict (srv (run sch sys)) = state_dict (srv sys)"
proof (induction sch arbitrary: sys)
  case Nil
  show ?case by simp
next
  case (Cons a sch)
  obtain t now where a: "a = (t, now)" by (cases a)
  have i: "round_inv s0 reqs (SendMessage_step t now sys)"
    by (rule inv_step [OF start Cons.prems(1)])
  have s: "state_dict (srv (SendMessage_step t now sys)) = state_dict (srv sys)"
    "0 < agg_calls (SendMessage_step t now sys)"
    using stable_step [OF start Cons.prems] by simp_all
  show ?case
    unfolding a run.simps using Cons.IH [OF i s(2)] s(1) by simp
qed

lemma returned_count_pos:
  "0 < returned_count ths \<longleftrightarrow> (\<exists>th \<in> set ths. pc th = PC_returned)"
  by (auto simp: returned_count_def filter_empty_conv)

lemma returned_count_all:
  "\<forall>th \<in> set ths. pc th = PC_returned \<Longrightarrow> returned_count ths = length ths"
  by (simp add: returned_count_def)

subsection \<open>The round completes\<close>

lemmas step_defs = SendMessage_step_def heartbeat_def append_section_def test_barrier_def
  barrier_test_def final_section_def compute_global_average_def set_pc_def notify_all_def
  start_def tensor_iadd_def divide_all_def

lemma ex_run:
  "run ex_schedule (start ex_registry ex_requests) =
     \<lparr>srv = ex_registry\<lparr>
        local_averages := [], num_clients := Some 2, state_dict := Some [(''a'', [3])],
        user_ids := [(''0x1'', \<lparr>user_num = 1, status = STATUS_ALIVE, last_active = 1\<rparr>),
                     (''0x2'', \<lparr>user_num = 2, status = STATUS_ALIVE, last_active = 2\<rparr>)]\<rparr>,
      threads = [\<lparr>req = ex_requests ! 0, pc = PC_returned\<rparr>,
                 \<lparr>req = ex_requests ! 1, pc = PC_returned\<rparr>],
      agg_calls = 2\<rparr>"
  by (simp add: ex_schedule_def step_defs ex_defs)


text \<open>
  C1, as the code has it. Take a round of \<open>target_clients\<close> calls by registered clients
  and any interleaving of their sections. No call raises. Every caller invokes the
  aggregation itself, once, just before it returns: the number of invocations equals the
  number of calls that have returned, \<open>target_clients\<close> at the end and not one. A call
  returns only when the aggregate of all the maps of the round is published and the
  collected set is cleared, and the snapshot stays the same from then on, so all callers
  return under the same snapshot. Unless all calls have returned some call can take a
  step, and every step that changes the state lowers a bounded measure: no call is left
  blocked.
\<close>

theorem round_completes:
  assumes "round_start shape s0 reqs" and "sys = run sch (start s0 reqs)"
  shows "(\<forall>th \<in> set (threads sys). \<forall>e. pc th \<noteq> PC_raised e)
    \<and> agg_calls sys = returned_count (threads sys)
    \<and> ((\<exists>th \<in> set (threads sys). pc th = PC_returned) \<longrightarrow>
          published reqs (state_dict (srv sys)) \<and> local_averages (srv sys) = []
        \<and> (\<forall>sch'. state_dict (srv (run sch' sys)) = state_dict (srv sys)))
    \<and> ((\<forall>th \<in> set (threads sys). pc th = PC_returned) \<longrightarrow>
          agg_calls sys = length reqs \<and> local_averages (srv sys) = [])
    \<and> ((\<forall>th \<in> set (threads sys). pc th = PC_returned)
          \<or> (\<exists>t < length reqs. SendMessage_step t now sys \<noteq> sys))
    \<and> (\<forall>t. SendMessage_step t now sys \<noteq> sys \<longrightarrow>
          remaining (SendMessage_step t now sys) < remaining sys)"
proof -
  have inv: "round_inv s0 reqs sys"
    unfolding assms(2) by (rule inv_reachable [OF assms(1)])
  note D = round_invD [OF inv]
  have len: "length (threads sys) = length reqs" by (rule round_inv_length [OF inv])
  have 1: "\<forall>th \<in> set (threads sys). \<forall>e. pc th \<noteq> PC_raised e" by (rule D(4))
  have 2: "agg_calls sys = returned_count (threads sys)" by (rule D(14))
  have 3: "published reqs (state_dict (srv sys)) \<and> local_averages (srv sys) = []
        \<and> (\<forall>sch'. state_dict (srv (run sch' sys)) = state_dict (srv sys))"
    if "\<exists>th \<in> set (threads sys). pc th = PC_returned"
  proof -
    from that have pos: "0 < agg_calls sys" by (simp add: 2 returned_count_pos)
    show ?thesis using D(8,11) [OF pos] stable_run [OF assms(1) inv pos] by blast
  qed
  have 4: "agg_calls sys = length reqs \<and> local_averages (srv sys) = []"
    if all: "\<forall>th \<in> set (threads sys). pc th = PC_returned"
  proof (cases "reqs = []")
    case True
    then have "threads sys = []" using len by simp
    moreover have "local_averages (srv sys) = []"
      using D(5) 2 \<open>threads sys = []\<close> by (simp add: returned_count_def collected_def)
    ultimately show ?thesis using 2 True by (simp add: returned_count_def)
  next
    case False
    have n: "agg_calls sys = length reqs" using 2 returned_count_all [OF all] len by simp
    then have "0 < agg_calls sys" using False by simp
    then show ?thesis using D(8) n by simp
  qed
  have 5: "(\<forall>th \<in> set (threads sys). pc th = PC_returned)
          \<or> (\<exists>t < length reqs. SendMessage_step t now sys \<noteq> sys)"
    using progress [OF inv] by blast
  have 6: "\<forall>t. SendMessage_step t now sys \<noteq> sys \<longrightarrow>
          remaining (SendMessage_step t now sys) < remaining sys"
    using step_changes [OF inv] by blast
  from 1 2 3 4 5 6 show ?thesis by blast
qed


lemma ex_round_start: "round_start (\<lambda>n. 1) ex_registry ex_requests"
  by (simp add: round_start_def shaped_def ex_defs)

theorem round_completes_witness:
  "round_start (\<lambda>n. 1) ex_registry ex_requests
   \<and> map pc (threads (run ex_schedule (start ex_registry ex_requests))) = [PC_returned, PC_returned]
   \<and> published ex_requests (state_dict (srv (run ex_schedule (start ex_registry ex_requests))))
   \<and> state_dict (srv (run ex_schedule (start ex_registry ex_requests))) = Some [(''a'', [3])]
   \<and> agg_calls (run ex_schedule (start ex_registry ex_requests)) = length ex_requests
   \<and> (\<exists>t < length ex_requests.
         SendMessage_step t 0 (start ex_registry ex_requests) \<noteq> start ex_registry ex_requests)"
proof -
  let ?sys = "run ex_schedule (start ex_registry ex_requests)"
  note a = round_completes [OF ex_round_start refl, of ex_schedule 0]
  have b0: "start ex_registry ex_requests = run [] (start ex_registry ex_requests)" by simp
  note b = round_completes [OF ex_round_start b0, of 0]
  have pcs: "map pc (threads ?sys) = [PC_returned, PC_returned]"
    and sd: "state_dict (srv ?sys) = Some [(''a'', [3])]"
    by (simp_all add: ex_run)
  have all: "\<forall>th \<in> set (threads ?sys). pc th = PC_returned" by (simp add: ex_run)
  then have some: "\<exists>th \<in> set (threads ?sys). pc th = PC_returned" by (simp add: ex_run)
  have 1: "published ex_requests (state_dict (srv ?sys))" using a some by blast
  have 2: "agg_calls ?sys = length ex_requests" using a all by blast
  have "\<not> (\<forall>th \<in> set (threads (start ex_registry ex_requests)). pc th = PC_returned)"
    by (simp add: start_def ex_defs)
  then have 3: "\<exists>t < length ex_requests.
         SendMessage_step t 0 (start ex_registry ex_requests) \<noteq> start ex_registry ex_requests"
    using b by blast
  from ex_round_start pcs sd 1 2 3 show ?thesis by blast
qed

text \<open>
  The claim as stated fails in the count: in a complete round of the two example calls
  the aggregation has been invoked twice.
\<close>

theorem aggregation_invoked_by_every_caller:
  "length ex_requests = target_clients ex_registry
   \<and> map pc (threads (run ex_schedule (start ex_registry ex_requests))) = [PC_returned, PC_returned]
   \<and> agg_calls (run ex_schedule (start ex_registry ex_requests)) = 2"
  by (simp add: ex_run) (simp add: ex_defs)


subsection \<open>Waking and aggregating\<close>















subsection \<open>Two submissions of one client\<close>

text \<open>
  C4, as the code has it. \<open>SendMessage\<close> keeps no record of who has submitted. When a
  client whose first call has appended and waits for the round to close calls again, the
  second call does not fail: its map is appended to the collected set, next to the first
  one, and counts toward the quorum.
\<close>

theorem second_submission_appended:
  assumes "t < length (threads sys)" and "u < length (threads sys)" and "t \<noteq> u"
    and "req_id (req (threads sys ! u)) = req_id (req (threads sys ! t))"
    and "pc (threads sys ! t) = PC_barrier \<or> pc (threads sys ! t) = PC_waiting"
    and "req_model (req (threads sys ! t)) \<in> set (local_averages (srv sys))"
    and "pc (threads sys ! u) = PC_heartbeat"
    and "map_of (user_ids (srv sys)) (req_id (req (threads sys ! u))) = Some info"
    and "sys' = run [(u, now1), (u, now2)] sys"
  shows "pc (threads sys' ! u) = PC_barrier
    \<and> local_averages (srv sys') = local_averages (srv sys) @ [req_model (req (threads sys ! u))]
    \<and> num_clients (srv sys') = Some (Suc (length (local_averages (srv sys))))
    \<and> req_model (req (threads sys ! t)) \<in> set (local_averages (srv sys'))"
proof -
  let ?uid = "req_id (req (threads sys ! u))"
  let ?s1 = "(srv sys)\<lparr>user_ids :=
        AList.update ?uid (info\<lparr>last_active := now1\<rparr>) (user_ids (srv sys))\<rparr>"
  let ?sys1 = "set_pc u PC_append (sys\<lparr>srv := ?s1\<rparr>)"
  have 1: "SendMessage_step u now1 sys = ?sys1"
    by (rule step_heartbeat [OF assms(2,7,8)])
  have u1: "u < length (threads ?sys1)" and pc1: "pc (threads ?sys1 ! u) = PC_append"
    and r1: "req (threads ?sys1 ! u) = req (threads sys ! u)"
    and la1: "local_averages (srv ?sys1) = local_averages (srv sys)"
    using assms(2) by simp_all
  define sys2 where "sys2 = SendMessage_step u now2 ?sys1"
  have sys': "sys' = sys2" by (simp add: assms(9) 1 sys2_def)
  note 2 = step_append [OF u1 pc1, of now2, folded sys2_def]
  have pcu: "pc (notify_all ((threads ?sys1)[u := (threads ?sys1 ! u)\<lparr>pc := PC_barrier\<rparr>]) ! u)
      = PC_barrier"
    using u1 by (simp add: notify_all_def)
  have a: "pc (threads sys2 ! u) = PC_barrier"
    using u1 pcu by (simp add: 2)
  have b: "local_averages (srv sys2)
      = local_averages (srv sys) @ [req_model (req (threads sys ! u))]"
    by (simp add: 2 r1)
  have c: "num_clients (srv sys2) = Some (Suc (length (local_averages (srv sys))))"
    by (simp add: 2)
  have d: "req_model (req (threads sys ! t)) \<in> set (local_averages (srv sys2))"
    using assms(6) by (simp add: b)
  show ?thesis unfolding sys' by (intro conjI a b c d)
qed

lemma ex_run_duplicate:
  "run ex_schedule_first (start ex_registry ex_duplicate) =
     \<lparr>srv = ex_registry\<lparr>
        local_averages := [[(''a'', [2])]], num_clients := Some 1,
        user_ids := [(''0x1'', \<lparr>user_num = 1, status = STATUS_ALIVE, last_active = 1\<rparr>),
                     (''0x2'', \<lparr>user_num = 2, status = STATUS_ALIVE, last_active = 100\<rparr>)]\<rparr>,
      threads = [\<lparr>req = ex_duplicate ! 0, pc = PC_waiting\<rparr>,
                 \<lparr>req = ex_duplicate ! 1, pc = PC_heartbeat\<rparr>],
      agg_calls = 0\<rparr>"
  by (simp add: ex_schedule_first_def step_defs ex_defs ex_duplicate_def)

theorem second_submission_appended_witness:
  "req_id (ex_duplicate ! 1) = req_id (ex_duplicate ! 0)
   \<and> pc (threads (run ex_schedule_first (start ex_registry ex_duplicate)) ! 0) = PC_waiting
   \<and> local_averages (srv (run ex_schedule_first (start ex_registry ex_duplicate)))
        = [[(''a'', [2])]]
   \<and> pc (threads (run [(1, 2), (1, 2)]
        (run ex_schedule_first (start ex_registry ex_duplicate))) ! 1) = PC_barrier
   \<and> local_averages (srv (run [(1, 2), (1, 2)]
        (run ex_schedule_first (start ex_registry ex_duplicate))))
        = [[(''a'', [2])], [(''a'', [4])]]"
proof -
  let ?sys = "run ex_schedule_first (start ex_registry ex_duplicate)"
  have h: "0 < length (threads ?sys)" "1 < length (threads ?sys)" "(0::nat) \<noteq> 1"
    "req_id (req (threads ?sys ! 1)) = req_id (req (threads ?sys ! 0))"
    "pc (threads ?sys ! 0) = PC_barrier \<or> pc (threads ?sys ! 0) = PC_waiting"
    "req_model (req (threads ?sys ! 0)) \<in> set (local_averages (srv ?sys))"
    "pc (threads ?sys ! 1) = PC_heartbeat"
    "map_of (user_ids (srv ?sys)) (req_id (req (threads ?sys ! 1)))
       = Some \<lparr>user_num = 1, status = STATUS_ALIVE, last_active = 1\<rparr>"
    by (simp_all add: ex_run_duplicate) (simp_all add: ex_duplicate_def ex_defs)
  note a = second_submission_appended [OF h refl, of 2 2]
  have r: "req_model (req (threads ?sys ! 1)) = [(''a'', [4])]"
    "local_averages (srv ?sys) = [[(''a'', [2])]]" "pc (threads ?sys ! 0) = PC_waiting"
    "req_id (ex_duplicate ! 1) = req_id (ex_duplicate ! 0)"
    by (simp_all add: ex_run_duplicate) (simp_all add: ex_duplicate_def)
  from a r show ?thesis by simp
qed

text \<open>
  The claim as stated fails: two calls with the id \<open>0x1\<close> fill the quorum of two, neither
  raises, and the round publishes the mean of that one client's two maps.
\<close>

theorem duplicate_submission_counterexample:
  "map req_id ex_duplicate = [''0x1'', ''0x1'']
   \<and> map pc (threads (run [(0, 1), (0, 1), (0, 1), (1, 2), (1, 2)]
        (start ex_registry ex_duplicate))) = [PC_notified, PC_barrier]
   \<and> local_averages (srv (run [(0, 1), (0, 1), (0, 1), (1, 2), (1, 2)]
        (start ex_registry ex_duplicate))) = [[(''a'', [2])], [(''a'', [4])]]
   \<and> map pc (threads (run ex_schedule (start ex_registry ex_duplicate)))
        = [PC_returned, PC_returned]
   \<and> state_dict (srv (run ex_schedule (start ex_registry ex_duplicate))) = Some [(''a'', [3])]"
  by (simp add: ex_schedule_def step_defs ex_defs ex_duplicate_def)

section \<open>Runs of operations\<close>

subsection \<open>What a section does to the registry\<close>

lemma step_user_ids:
  "user_ids (srv (SendMessage_step t now sys)) = user_ids (srv sys)
   \<or> (\<exists>uid info. map_of (user_ids (srv sys)) uid = Some info
         \<and> user_ids (srv (SendMessage_step t now sys))
             = AList.update uid (info\<lparr>last_active := now\<rparr>) (user_ids (srv sys)))"
proof (cases "t < length (threads sys)")
  case False
  then show ?thesis by (simp add: SendMessage_step_def)
next
  case True
  show ?thesis
  proof (cases "pc (threads sys ! t)")
    case PC_heartbeat
    show ?thesis
    proof (cases "map_of (user_ids (srv sys)) (req_id (req (threads sys ! t)))")
      case None
      then show ?thesis using True PC_heartbeat
        by (simp add: SendMessage_step_def heartbeat_def)
    next
      case (Some info)
      show ?thesis
        using Some by (auto simp: step_heartbeat [OF True PC_heartbeat Some])
    qed
  next
    case PC_append
    then show ?thesis using True
      by (simp add: SendMessage_step_def append_section_def set_pc_def Let_def)
  next
    case PC_barrier
    then show ?thesis using True
      by (simp add: SendMessage_step_def test_barrier_def set_pc_def split: sum.splits)
  next
    case PC_notified
    then show ?thesis using True
      by (simp add: SendMessage_step_def test_barrier_def set_pc_def split: sum.splits)
  next
    case PC_aggregate
    then show ?thesis using True
      by (auto simp: SendMessage_step_def final_section_def compute_global_average_def
           set_pc_def split: sum.splits if_splits)
  qed (simp_all add: SendMessage_step_def True)
qed

lemma step_keys:
  "map fst (user_ids (srv (SendMessage_step t now sys))) = map fst (user_ids (srv sys))"
proof -
  from step_user_ids [of t now sys] show ?thesis
  proof
    assume "user_ids (srv (SendMessage_step t now sys)) = user_ids (srv sys)"
    then show ?thesis by simp
  next
    assume "\<exists>k info. map_of (user_ids (srv sys)) k = Some info
         \<and> user_ids (srv (SendMessage_step t now sys))
             = AList.update k (info\<lparr>last_active := now\<rparr>) (user_ids (srv sys))"
    then obtain k i where k: "map_of (user_ids (srv sys)) k = Some i"
      and u: "user_ids (srv (SendMessage_step t now sys))
             = AList.update k (i\<lparr>last_active := now\<rparr>) (user_ids (srv sys))" by blast
    have "k \<in> fst ` set (user_ids (srv sys))" using map_of_SomeD [OF k] by force
    then show ?thesis by (simp add: u update_keys)
  qed
qed

subsection \<open>Registrations\<close>

lemma action_keys:
  assumes "apply_action draws a (sys, pos) = Some (r, sys', pos')" "\<not> is_SendBye a"
  shows "issued [r] = [] \<Longrightarrow> \<not> is_GetID a
            \<and> map fst (user_ids (srv sys')) = map fst (user_ids (srv sys))"
    and "issued [r] = [(rid, un)] \<Longrightarrow> is_GetID a
            \<and> rid \<notin> set (map fst (user_ids (srv sys)))
            \<and> un = Suc (length (user_ids (srv sys)))
            \<and> map fst (user_ids (srv sys')) = map fst (user_ids (srv sys)) @ [rid]"
    and "length (issued [r]) \<le> 1"
proof -
  have "(issued [r] = [] \<longrightarrow> \<not> is_GetID a
            \<and> map fst (user_ids (srv sys')) = map fst (user_ids (srv sys)))
      \<and> (issued [r] = [(rid, un)] \<longrightarrow> is_GetID a
            \<and> rid \<notin> set (map fst (user_ids (srv sys)))
            \<and> un = Suc (length (user_ids (srv sys)))
            \<and> map fst (user_ids (srv sys')) = map fst (user_ids (srv sys)) @ [rid])
      \<and> length (issued [r]) \<le> 1"
  proof (cases a)
    case (Act_GetID now)
    with assms(1) obtain rid' un' s' where
      g: "GetID draws now (srv sys, pos) = Some ((rid', un'), s', pos')"
      and r: "r = ID rid' un'" "sys' = sys\<lparr>srv := s'\<rparr>"
      by (auto split: option.splits)
    note f = GetID_Some(1-3) [OF g]
    show ?thesis using f(1,2) by (auto simp: r f(3) Act_GetID)
  next
    case (Act_GetSize clock)
    with assms(1) show ?thesis by (auto simp: GetSize_def Let_def sweep_keys)
  next
    case Act_GetModel
    with assms(1) show ?thesis by auto
  next
    case (Act_SendBye v)
    with assms(2) show ?thesis by simp
  next
    case (Act_SendMessage rq)
    with assms(1) show ?thesis by auto
  next
    case (Act_section t now)
    with assms(1) show ?thesis by (auto simp: step_keys)
  qed
  then show "issued [r] = [] \<Longrightarrow> \<not> is_GetID a
            \<and> map fst (user_ids (srv sys')) = map fst (user_ids (srv sys))"
    and "issued [r] = [(rid, un)] \<Longrightarrow> is_GetID a
            \<and> rid \<notin> set (map fst (user_ids (srv sys)))
            \<and> un = Suc (length (user_ids (srv sys)))
            \<and> map fst (user_ids (srv sys')) = map fst (user_ids (srv sys)) @ [rid]"
    and "length (issued [r]) \<le> 1"
    by blast+
qed

lemma issued_Cons: "issued (r # rs) = issued [r] @ issued rs"
  by (cases r) simp_all

lemma issued_single: "length (issued [r]) \<le> 1 \<Longrightarrow> issued [r] = [] \<or> (\<exists>rid un. issued [r] = [(rid, un)])"
  by (cases "issued [r]") auto

lemma registrations_results:
  assumes "run_actions draws acts (sys, pos) = Some (rs, sys', pos')"
    and "\<forall>a \<in> set acts. \<not> is_SendBye a"
  shows "length (issued rs) = length (filter is_GetID acts)
       \<and> map fst (user_ids (srv sys')) = map fst (user_ids (srv sys)) @ map fst (issued rs)
       \<and> distinct (map fst (issued rs))
       \<and> set (map fst (issued rs)) \<inter> set (map fst (user_ids (srv sys))) = {}
       \<and> map snd (issued rs) =
            [Suc (length (user_ids (srv sys)))
               ..< Suc (length (user_ids (srv sys))) + length (filter is_GetID acts)]"
  using assms
proof (induction acts arbitrary: sys pos rs)
  case Nil
  then show ?case by simp
next
  case (Cons a acts)
  from Cons.prems(1) obtain r sys1 pos1 rs1 where
    a: "apply_action draws a (sys, pos) = Some (r, sys1, pos1)"
    and rest: "run_actions draws acts (sys1, pos1) = Some (rs1, sys', pos')"
    and rs: "rs = r # rs1"
    by (auto split: option.splits)
  have nb: "\<not> is_SendBye a" and nbs: "\<forall>a \<in> set acts. \<not> is_SendBye a"
    using Cons.prems(2) by simp_all
  note ih = Cons.IH [OF rest nbs]
  note k = action_keys [OF a nb]
  have iss: "issued rs = issued [r] @ issued rs1" unfolding rs by (rule issued_Cons)
  from issued_single [OF k(3)] show ?case
  proof
    assume e: "issued [r] = []"
    from k(1) [OF e] have na: "\<not> is_GetID a"
      and keys1: "map fst (user_ids (srv sys1)) = map fst (user_ids (srv sys))" by simp_all
    have len1: "length (user_ids (srv sys1)) = length (user_ids (srv sys))"
      using keys1 by (metis length_map)
    show ?thesis using ih na by (simp add: iss e keys1 len1)
  next
    assume "\<exists>rid un. issued [r] = [(rid, un)]"
    then obtain rid un where e: "issued [r] = [(rid, un)]" by blast
    from k(2) [OF e] have ga: "is_GetID a"
      and fresh: "rid \<notin> set (map fst (user_ids (srv sys)))"
      and un: "un = Suc (length (user_ids (srv sys)))"
      and keys1: "map fst (user_ids (srv sys1)) = map fst (user_ids (srv sys)) @ [rid]"
      by simp_all
    have len1: "length (user_ids (srv sys1)) = Suc (length (user_ids (srv sys)))"
      using keys1 by (metis length_map length_append_singleton)
    have 1: "length (issued rs) = length (filter is_GetID (a # acts))"
      using ih ga by (simp add: iss e)
    have 2: "map fst (user_ids (srv sys')) = map fst (user_ids (srv sys)) @ map fst (issued rs)"
      using ih by (simp add: iss e keys1)
    have 3: "distinct (map fst (issued rs))"
      using ih by (auto simp: iss e keys1)
    have 4: "set (map fst (issued rs)) \<inter> set (map fst (user_ids (srv sys))) = {}"
      using ih fresh by (auto simp: iss e keys1)
    have 5: "map snd (issued rs) =
            [Suc (length (user_ids (srv sys)))
               ..< Suc (length (user_ids (srv sys))) + length (filter is_GetID (a # acts))]"
      using ih ga by (simp add: iss e len1 un upt_conv_Cons del: upt_Suc)
    from 1 2 3 4 5 show ?thesis by blast
  qed
qed

lemma registrations_return:
  assumes "\<forall>F p. finite F \<and> card F < length (user_ids (srv sys)) + length (filter is_GetID acts)
              \<longrightarrow> (\<exists>n. draw_id draws (p + n) \<notin> F)"
    and "\<forall>a \<in> set acts. \<not> is_SendBye a"
  shows "\<exists>r. run_actions draws acts (sys, pos) = Some r"
  using assms
proof (induction acts arbitrary: sys pos)
  case Nil
  then show ?case by simp
next
  case (Cons a acts)
  have nb: "\<not> is_SendBye a" and nbs: "\<forall>a \<in> set acts. \<not> is_SendBye a"
    using Cons.prems(2) by simp_all
  have "\<exists>r sys1 pos1. apply_action draws a (sys, pos) = Some (r, sys1, pos1)"
  proof (cases a)
    case (Act_GetID now)
    have "card (set (map fst (user_ids (srv sys))))
        < length (user_ids (srv sys)) + length (filter is_GetID (a # acts))"
      using card_length [of "map fst (user_ids (srv sys))"] Act_GetID by simp
    with Cons.prems(1) obtain n where
      "draw_id draws (pos + n) \<notin> set (map fst (user_ids (srv sys)))" by blast
    from GetID_returns [OF this, of now] show ?thesis
      using Act_GetID by (auto split: option.splits)
  next
    case (Act_GetSize clock)
    then show ?thesis by (simp split: prod.splits)
  next
    case (Act_SendBye v)
    then show ?thesis by (simp split: sum.splits)
  qed simp_all
  then obtain r sys1 pos1 where a: "apply_action draws a (sys, pos) = Some (r, sys1, pos1)"
    by blast
  note k = action_keys [OF a nb]
  have "length (user_ids (srv sys1)) + length (filter is_GetID acts)
      = length (user_ids (srv sys)) + length (filter is_GetID (a # acts))"
  proof -
    from issued_single [OF k(3)] show ?thesis
    proof
      assume e: "issued [r] = []"
      from k(1) [OF e] have "\<not> is_GetID a"
        "map fst (user_ids (srv sys1)) = map fst (user_ids (srv sys))" by simp_all
      then show ?thesis by (metis filter.simps(2) length_map)
    next
      assume "\<exists>rid un. issued [r] = [(rid, un)]"
      then obtain rid un where e: "issued [r] = [(rid, un)]" by blast
      from k(2) [OF e] have ga: "is_GetID a"
        and keys1: "map fst (user_ids (srv sys1)) = map fst (user_ids (srv sys)) @ [rid]"
        by simp_all
      have "length (user_ids (srv sys1)) = Suc (length (user_ids (srv sys)))"
        using keys1 by (metis length_map length_append_singleton)
      then show ?thesis using ga by simp
    qed
  qed
  then have "\<exists>r. run_actions draws acts (sys1, pos1) = Some r"
    using Cons.prems(1) nbs by (intro Cons.IH) simp_all
  then show ?case using a by auto
qed

text \<open>
  C7, as the code has it. In a run of operations with no deregistration, the \<open>GetID\<close>
  calls return pairwise distinct ids, none of which was registered before the run (each
  id is checked against the registered ones and drawn again on a collision), and the
  ordinals follow the size of the registry in the order of the calls: \<open>1..k\<close> from an
  empty registry. The calls return as long as the generator keeps producing an id outside
  every set smaller than the registry becomes.
\<close>

theorem registrations_distinct_ids:
  assumes "\<forall>a \<in> set acts. \<not> is_SendBye a"
  shows "(\<forall>rs sys' pos'. run_actions draws acts (sys, pos) = Some (rs, sys', pos') \<longrightarrow>
        length (issued rs) = length (filter is_GetID acts)
      \<and> distinct (map fst (issued rs))
      \<and> set (map fst (issued rs)) \<inter> set (map fst (user_ids (srv sys))) = {}
      \<and> map snd (issued rs) =
            [Suc (length (user_ids (srv sys)))
               ..< Suc (length (user_ids (srv sys))) + length (filter is_GetID acts)])
   \<and> ((\<forall>F p. finite F \<and> card F < length (user_ids (srv sys)) + length (filter is_GetID acts)
              \<longrightarrow> (\<exists>n. draw_id draws (p + n) \<notin> F))
        \<longrightarrow> (\<exists>r. run_actions draws acts (sys, pos) = Some r))"
  using registrations_results [OF _ assms, of draws sys pos]
    registrations_return [OF _ assms, of sys draws pos]
  by blast


lemma ex_draws_two:
  assumes "finite F" "card F < 2"
  shows "\<exists>n. draw_id ex_draws (p + n) \<notin> F"
proof (rule ccontr)
  assume "\<not> (\<exists>n. draw_id ex_draws (p + n) \<notin> F)"
  then have "draw_id ex_draws (p + 0) \<in> F" "draw_id ex_draws (p + 2) \<in> F" by blast+
  then have "{draw_id ex_draws (p + 0), draw_id ex_draws (p + 2)} \<subseteq> F" by simp
  then have "card {draw_id ex_draws (p + 0), draw_id ex_draws (p + 2)} \<le> card F"
    using assms(1) by (rule card_mono [rotated])
  moreover have "draw_id ex_draws (p + 0) \<noteq> draw_id ex_draws (p + 2)"
    by (simp add: draw_id_ex_draws) presburger
  ultimately show False using assms(2) by simp
qed

lemma ex_run_registrations:
  "run_actions ex_draws ex_registrations (start (init_server ex_model) [], 0) =
     Some ([ID ''0x0'' 1, Size 1, ID ''0x1'' 2],
           start ((init_server ex_model)\<lparr>user_ids :=
              [(''0x0'', \<lparr>user_num = 1, status = STATUS_ALIVE, last_active = 10\<rparr>),
               (''0x1'', \<lparr>user_num = 2, status = STATUS_ALIVE, last_active = 20\<rparr>)]\<rparr>) [],
           3)"
  by (simp add: ex_registrations_def GetID_def generate_ID_def generate_ID_loop.simps
        draw_id_ex_draws init_server_def start_def GetSize_def alive_ids_def)

theorem registrations_distinct_ids_witness:
  "(\<exists>r. run_actions ex_draws ex_registrations (start (init_server ex_model) [], 0) = Some r)
   \<and> run_actions ex_draws ex_registrations (start (init_server ex_model) [], 0) =
     Some ([ID ''0x0'' 1, Size 1, ID ''0x1'' 2],
           start ((init_server ex_model)\<lparr>user_ids :=
              [(''0x0'', \<lparr>user_num = 1, status = STATUS_ALIVE, last_active = 10\<rparr>),
               (''0x1'', \<lparr>user_num = 2, status = STATUS_ALIVE, last_active = 20\<rparr>)]\<rparr>) [],
           3)
   \<and> issued [ID ''0x0'' 1, Size 1, ID ''0x1'' 2] = [(''0x0'', 1), (''0x1'', 2)]
   \<and> distinct (map fst (issued [ID ''0x0'' 1, Size 1, ID ''0x1'' 2]))
   \<and> map snd (issued [ID ''0x0'' 1, Size 1, ID ''0x1'' 2]) = [1 ..< 3]"
proof -
  have nb: "\<forall>a \<in> set ex_registrations. \<not> is_SendBye a"
    by (simp add: ex_registrations_def)
  note t = registrations_distinct_ids [OF nb, of ex_draws "start (init_server ex_model) []" 0]
  have n: "length (user_ids (srv (start (init_server ex_model) [])))
      + length (filter is_GetID ex_registrations) = 2"
    by (simp add: start_def init_server_def ex_registrations_def)
  have fresh: "\<forall>F p. finite F \<and> card F < length (user_ids (srv (start (init_server ex_model) [])))
      + length (filter is_GetID ex_registrations) \<longrightarrow> (\<exists>n. draw_id ex_draws (p + n) \<notin> F)"
    unfolding n using ex_draws_two by blast
  have 1: "\<exists>r. run_actions ex_draws ex_registrations (start (init_server ex_model) [], 0) = Some r"
    using t fresh by blast
  have 2: "distinct (map fst (issued [ID ''0x0'' 1, Size 1, ID ''0x1'' 2]))"
    using t ex_run_registrations by blast
  have "map snd (issued [ID ''0x0'' 1, Size 1, ID ''0x1'' 2]) =
            [Suc (length (user_ids (srv (start (init_server ex_model) []))))
               ..< Suc (length (user_ids (srv (start (init_server ex_model) []))))
                   + length (filter is_GetID ex_registrations)]"
    using t ex_run_registrations by blast
  then have 3: "map snd (issued [ID ''0x0'' 1, Size 1, ID ''0x1'' 2]) = [1 ..< 3]"
    by (simp add: start_def init_server_def ex_registrations_def upt_rec)
  have 4: "issued [ID ''0x0'' 1, Size 1, ID ''0x1'' 2] = [(''0x0'', 1), (''0x1'', 2)]" by simp
  from 1 2 3 4 ex_run_registrations show ?thesis by blast
qed

text \<open>
  The claim as stated fails when a deregistration comes between two registrations: the
  collision check is against the sessions registered at that moment, so the id released
  by \<open>SendBye\<close> is issued again when the generator repeats its output.
\<close>

theorem id_reissued_after_SendBye:
  "run_actions ex_draws_const ex_reregistration (start (init_server ex_model) [], 0) =
     Some ([ID ''0x0'' 1, Empty, ID ''0x0'' 1],
           start ((init_server ex_model)\<lparr>user_ids :=
              [(''0x0'', \<lparr>user_num = 1, status = STATUS_ALIVE, last_active = 20\<rparr>)]\<rparr>) [],
           2)
   \<and> issued [ID ''0x0'' 1, Empty, ID ''0x0'' 1] = [(''0x0'', 1), (''0x0'', 1)]"
  by (simp add: ex_reregistration_def GetID_def generate_ID_def generate_ID_loop.simps
        draw_id_const0 init_server_def start_def SendBye_def AList.delete_eq)


subsection \<open>A session marked dead\<close>

lemma marked_dead_update:
  assumes "marked_dead uid n s" "map_of (user_ids s) k = Some i"
  shows "marked_dead uid n (s\<lparr>user_ids := AList.update k (i\<lparr>last_active := now\<rparr>) (user_ids s)\<rparr>)"
  using assms by (auto simp: marked_dead_def distinct_update update_conv')

lemma sweep_map_of:
  "map_of us uid = Some i \<Longrightarrow>
     \<exists>i'. map_of (sweep clock k us) uid = Some i' \<and> user_num i' = user_num i
        \<and> (status i = STATUS_DEAD \<longrightarrow> status i' = STATUS_DEAD)"
  by (induction clock k us rule: sweep.induct) auto

lemma marked_dead_sweep:
  assumes "marked_dead uid n s"
  shows "marked_dead uid n (s\<lparr>user_ids := sweep clock k (user_ids s)\<rparr>)"
proof -
  from assms obtain info where i: "map_of (user_ids s) uid = Some info"
    "status info = STATUS_DEAD" "user_num info = n" and d: "distinct (map fst (user_ids s))"
    by (auto simp: marked_dead_def)
  from sweep_map_of [OF i(1), of clock k] i(2,3) obtain i' where
    "map_of (sweep clock k (user_ids s)) uid = Some i'" "user_num i' = n"
    "status i' = STATUS_DEAD" by auto
  then show ?thesis using d by (auto simp: marked_dead_def sweep_keys)
qed

lemma marked_dead_delete:
  assumes "marked_dead uid n s" "v \<noteq> uid"
  shows "marked_dead uid n (s\<lparr>user_ids := AList.delete v (user_ids s)\<rparr>)"
  using assms by (auto simp: marked_dead_def distinct_delete delete_conv')

lemma marked_dead_GetID:
  assumes "marked_dead uid n s" "GetID draws now (s, pos) = Some ((rid, un), s', pos')"
  shows "marked_dead uid n s'"
proof -
  note f = GetID_Some(1,3) [OF assms(2)]
  from assms(1) obtain info where i: "map_of (user_ids s) uid = Some info"
    "status info = STATUS_DEAD" "user_num info = n" and d: "distinct (map fst (user_ids s))"
    by (auto simp: marked_dead_def)
  have "map_of (user_ids s') uid = Some info"
    using i(1) by (simp add: f(2) map_add_Some_iff)
  moreover have "distinct (map fst (user_ids s'))" using d f(1) by (simp add: f(2))
  ultimately show ?thesis using i(2,3) by (auto simp: marked_dead_def)
qed

lemma marked_dead_cong:
  "user_ids s' = user_ids s \<Longrightarrow> marked_dead uid n s' = marked_dead uid n s"
  by (simp add: marked_dead_def)

lemma marked_dead_step:
  assumes "marked_dead uid n (srv sys)"
  shows "marked_dead uid n (srv (SendMessage_step t now sys))"
proof -
  have fields: "\<And>s s'. user_ids s' = user_ids s \<Longrightarrow> marked_dead uid n s \<Longrightarrow> marked_dead uid n s'"
    using marked_dead_cong by blast
  from step_user_ids [of t now sys] show ?thesis
  proof
    assume "user_ids (srv (SendMessage_step t now sys)) = user_ids (srv sys)"
    then show ?thesis using assms by (rule fields)
  next
    assume "\<exists>k info. map_of (user_ids (srv sys)) k = Some info
         \<and> user_ids (srv (SendMessage_step t now sys))
             = AList.update k (info\<lparr>last_active := now\<rparr>) (user_ids (srv sys))"
    then obtain k i where k: "map_of (user_ids (srv sys)) k = Some i"
      and u: "user_ids (srv (SendMessage_step t now sys))
             = AList.update k (i\<lparr>last_active := now\<rparr>) (user_ids (srv sys))" by blast
    have "user_ids (srv (SendMessage_step t now sys)) =
        user_ids ((srv sys)\<lparr>user_ids := AList.update k (i\<lparr>last_active := now\<rparr>) (user_ids (srv sys))\<rparr>)"
      using u by simp
    then show ?thesis using marked_dead_update [OF assms k, of now] by (rule fields)
  qed
qed

lemma marked_dead_action:
  assumes "marked_dead uid n (srv sys)" "a \<noteq> Act_SendBye uid"
    and "apply_action draws a (sys, pos) = Some (r, sys', pos')"
  shows "marked_dead uid n (srv sys')"
proof (cases a)
  case (Act_GetID now)
  with assms(3) obtain rid un s' where
    "GetID draws now (srv sys, pos) = Some ((rid, un), s', pos')" "sys' = sys\<lparr>srv := s'\<rparr>"
    by (auto split: option.splits)
  then show ?thesis using marked_dead_GetID [OF assms(1)] by simp
next
  case (Act_GetSize clock)
  with assms(3) have "srv sys' = (srv sys)\<lparr>user_ids := sweep clock 0 (user_ids (srv sys))\<rparr>"
    by (auto simp: GetSize_def Let_def)
  then show ?thesis using marked_dead_sweep [OF assms(1)] by simp
next
  case Act_GetModel
  then show ?thesis using assms by auto
next
  case (Act_SendBye v)
  with assms(2) have ne: "v \<noteq> uid" by simp
  from Act_SendBye assms(3) have
    "srv sys' = srv sys \<or> srv sys' = (srv sys)\<lparr>user_ids := AList.delete v (user_ids (srv sys))\<rparr>"
    by (auto simp: SendBye_def split: option.splits)
  then show ?thesis using assms(1) marked_dead_delete [OF assms(1) ne] by auto
next
  case (Act_SendMessage rq)
  then show ?thesis using assms by auto
next
  case (Act_section t now)
  then show ?thesis using assms marked_dead_step by auto
qed

lemma marked_dead_run:
  assumes "marked_dead uid n (srv sys)" "Act_SendBye uid \<notin> set acts"
    and "run_actions draws acts (sys, pos) = Some (rs, sys', pos')"
  shows "marked_dead uid n (srv sys')"
  using assms
proof (induction acts arbitrary: sys pos rs)
  case Nil
  then show ?case by simp
next
  case (Cons a acts)
  from Cons.prems(3) obtain r sys1 pos1 rs1 where
    a: "apply_action draws a (sys, pos) = Some (r, sys1, pos1)"
    and rest: "run_actions draws acts (sys1, pos1) = Some (rs1, sys', pos')"
    by (auto split: option.splits)
  have "marked_dead uid n (srv sys1)"
    using marked_dead_action [OF Cons.prems(1) _ a] Cons.prems(2) by auto
  then show ?case using Cons.IH [OF _ _ rest] Cons.prems(2) by simp
qed

lemma marked_dead_not_alive:
  assumes "marked_dead uid n s"
  shows "uid \<notin> set (alive_ids s)"
proof
  assume "uid \<in> set (alive_ids s)"
  then obtain i where "(uid, i) \<in> set (user_ids s)" "status i = STATUS_ALIVE"
    by (auto simp: alive_ids_def)
  moreover from assms have "distinct (map fst (user_ids s))" by (simp add: marked_dead_def)
  ultimately have "map_of (user_ids s) uid = Some i" by simp
  with assms \<open>status i = STATUS_ALIVE\<close> show False by (auto simp: marked_dead_def)
qed

text \<open>
  C9: once a session is marked \<open>STATUS_DEAD\<close>, it is still registered and still marked
  dead after any run of operations that does not deregister it (registrations, sweeps,
  fetches, deregistrations of others, \<open>SendMessage\<close> calls of any client, its own
  included: they update \<open>last_active\<close> only). So its id is not among the alive ids, and
  every later \<open>GetSize\<close> returns a count that leaves it out.
\<close>

theorem dead_session_stays_dead:
  assumes "distinct (map fst (user_ids (srv sys)))"
    and "map_of (user_ids (srv sys)) uid = Some info" and "status info = STATUS_DEAD"
    and "Act_SendBye uid \<notin> set acts"
    and "run_actions draws acts (sys, pos) = Some (rs, sys', pos')"
  shows "(\<exists>info'. map_of (user_ids (srv sys')) uid = Some info'
            \<and> status info' = STATUS_DEAD \<and> user_num info' = user_num info)
    \<and> uid \<notin> set (alive_ids (srv sys'))
    \<and> (\<forall>clock. fst (GetSize clock (srv sys')) = length (alive_ids (snd (GetSize clock (srv sys'))))
          \<and> uid \<notin> set (alive_ids (snd (GetSize clock (srv sys')))))"
proof -
  have "marked_dead uid (user_num info) (srv sys)"
    using assms(1-3) by (auto simp: marked_dead_def)
  then have m: "marked_dead uid (user_num info) (srv sys')"
    using assms(4,5) by (rule marked_dead_run)
  have 1: "\<exists>info'. map_of (user_ids (srv sys')) uid = Some info'
            \<and> status info' = STATUS_DEAD \<and> user_num info' = user_num info"
    using m by (auto simp: marked_dead_def)
  have 2: "uid \<notin> set (alive_ids (srv sys'))" by (rule marked_dead_not_alive [OF m])
  have 3: "fst (GetSize clock (srv sys')) = length (alive_ids (snd (GetSize clock (srv sys'))))
          \<and> uid \<notin> set (alive_ids (snd (GetSize clock (srv sys'))))" for clock
    using marked_dead_not_alive [OF marked_dead_sweep [OF m, of clock 0]]
    by (simp add: GetSize_def Let_def)
  from 1 2 3 show ?thesis by blast
qed


lemma ex_run_actions:
  "run_actions ex_draws ex_actions (start ex_dead [], 0)
     = Some ([Pending, Pending, Size 1, ID ''0x0'' 3], ex_after_actions, 1)"
  by (simp add: ex_actions_def ex_after_actions_def ex_dead_def ex_defs start_def
        SendMessage_step_def heartbeat_def set_pc_def GetSize_def alive_ids_def
        GetID_def generate_ID_def generate_ID_loop.simps draw_id_ex_draws)

theorem dead_session_stays_dead_witness:
  "map_of (user_ids (srv (start ex_dead []))) ''0x1''
      = Some \<lparr>user_num = 1, status = STATUS_DEAD, last_active = 0\<rparr>
   \<and> run_actions ex_draws ex_actions (start ex_dead [], 0)
      = Some ([Pending, Pending, Size 1, ID ''0x0'' 3], ex_after_actions, 1)
   \<and> map_of (user_ids (srv ex_after_actions)) ''0x1''
      = Some \<lparr>user_num = 1, status = STATUS_DEAD, last_active = 340\<rparr>
   \<and> ''0x1'' \<notin> set (alive_ids (srv ex_after_actions))
   \<and> fst (GetSize (\<lambda>k. 370) (srv ex_after_actions)) = 2"
proof -
  have h: "distinct (map fst (user_ids (srv (start ex_dead []))))"
    "map_of (user_ids (srv (start ex_dead []))) ''0x1''
      = Some \<lparr>user_num = 1, status = STATUS_DEAD, last_active = 0\<rparr>"
    "status \<lparr>user_num = 1, status = STATUS_DEAD, last_active = 0\<rparr> = STATUS_DEAD"
    "Act_SendBye ''0x1'' \<notin> set ex_actions"
    by (simp_all add: start_def ex_dead_def ex_defs ex_actions_def)
  note a = dead_session_stays_dead [OF h ex_run_actions]
  have 1: "''0x1'' \<notin> set (alive_ids (srv ex_after_actions))" using a by blast
  have 2: "map_of (user_ids (srv ex_after_actions)) ''0x1''
      = Some \<lparr>user_num = 1, status = STATUS_DEAD, last_active = 340\<rparr>"
    by (simp add: ex_after_actions_def)
  have 3: "fst (GetSize (\<lambda>k. 370) (srv ex_after_actions)) = 2"
    by (simp add: ex_after_actions_def GetSize_def alive_ids_def ex_defs)
  from h(2) ex_run_actions 1 2 3 show ?thesis by blast
qed


end
